theory Spec2Isabelle
  imports Complex_Main "HOL-Library.Multiset"
begin

section \<open>JavaScript values used by App.jsx\<close>

text \<open>
  JavaScript numbers are modelled exactly: whole numbers as \<^typ>\<open>int\<close>, quotients as
  \<^typ>\<open>rat\<close>.  A number that may be \<^verbatim>\<open>NaN\<close> is an \<open>option\<close> with \<open>None\<close> for
  \<^verbatim>\<open>NaN\<close>.  The model agrees with IEEE doubles as long as all magnitudes stay below
  \<open>2^53\<close>, which head counts, hours and minutes do.
\<close>

text \<open>\<^verbatim>\<open>a || b\<close> on strings: the empty string is the only falsy string.\<close>

definition js_or :: "string \<Rightarrow> string \<Rightarrow> string" where
  "js_or a b = (if a = [] then b else a)"

definition is_ws :: "char \<Rightarrow> bool" where
  "is_ws c = (c \<in> set [CHR '' '', CHR 0x09, CHR 0x0A, CHR 0x0B, CHR 0x0C, CHR 0x0D])"

definition is_digit :: "char \<Rightarrow> bool" where
  "is_digit c = ((48::nat) \<le> of_char c \<and> (of_char c :: nat) \<le> 57)"

definition digit_val :: "char \<Rightarrow> nat" where
  "digit_val c = (of_char c :: nat) - 48"

text \<open>
  \<^verbatim>\<open>parseInt(str, 10)\<close>: skip leading white space, read an optional sign, then the
  longest run of decimal digits; without a digit the result is \<^verbatim>\<open>NaN\<close>.  The strings
  are the values of number inputs, so ASCII; of the white space of the language only the
  ASCII characters are modelled.
\<close>

definition js_parseInt :: "string \<Rightarrow> int option" where
  "js_parseInt str =
     (let s1 = dropWhile is_ws str;
          sign = (case s1 of c # r \<Rightarrow> (if c = CHR ''-'' then - 1 else 1) | [] \<Rightarrow> (1::int));
          s2 = (case s1 of c # r \<Rightarrow> (if c = CHR ''-'' \<or> c = CHR ''+'' then r else s1) | [] \<Rightarrow> s1);
          ds = takeWhile is_digit s2
      in if ds = [] then None
         else Some (sign * int (foldl (\<lambda>a c. 10 * a + digit_val c) 0 ds)))"

text \<open>The decimal text of a non-negative whole number, as a template literal prints it.\<close>

fun string_of_nat :: "nat \<Rightarrow> string" where
  "string_of_nat n =
     (if n < 10 then [char_of (48 + n)]
      else string_of_nat (n div 10) @ [char_of (48 + n mod 10)])"

declare string_of_nat.simps [simp del]

text \<open>\<^verbatim>\<open>Math.round(x)\<close> rounds to the nearest integer, halves upwards.\<close>

definition js_round :: "rat \<Rightarrow> int" where
  "js_round x = \<lfloor>x + 1 / 2\<rfloor>"

text \<open>\<^verbatim>\<open>const snap30 = (minutes) => Math.round(minutes / 30) * 30\<close>\<close>

definition snap30 :: "rat \<Rightarrow> rat" where
  "snap30 minutes = of_int (js_round (minutes / 30)) * 30"

text \<open>\<^verbatim>\<open>const ceilDiv = (a, b) => Math.ceil(a / b)\<close>; the divisor is never zero here.\<close>

definition ceilDiv :: "int \<Rightarrow> int \<Rightarrow> int" where
  "ceilDiv a b = \<lceil>(of_int a :: rat) / of_int b\<rceil>"

section \<open>Data model\<close>

record window =
  w_start :: int
  w_end :: int
  w_count :: int

record capacity_limits =
  capFT :: int
  capPT :: int
  maxFTShifts :: int
  maxPTShifts :: int

text \<open>
  \<open>mixedFtPercent\<close> is \<^verbatim>\<open>parseInt(mixedRatio, 10)\<close>, which is \<^verbatim>\<open>NaN\<close> for an emptied
  input field.
\<close>

record plan_opts =
  strategy :: string
  mixedFtPercent :: "int option"
  isWeekend :: bool
  ptLenHours :: nat

record plan_result =
  plan_shiftsFT :: "window list"
  plan_shiftsPT :: "window list"
  coverage :: "int list"
  required :: "int list"
  shortage :: "int list"
  excess :: "int list"
  maxConcurrent :: int
  limits :: capacity_limits
  hoursShort :: int
  totalShortUnits :: int

record hire_recommendation =
  totalShort :: int
  peakShort :: int
  minFT8 :: int
  minPTcur :: int
  minPT4 :: int
  minPT6 :: int
  mixed_ft :: int
  mixed_pt :: int
  mixed_ptLenHours :: int

record roster_entry =
  r_agent :: string
  r_type :: string
  r_start :: int
  r_end :: int
  r_hours :: int
  lunchStart :: "rat option"
  lunchEnd :: "rat option"

section \<open>Hire recommendations\<close>

text \<open>
  \<open>computeHireRecommendations\<close>.  The argument \<open>None\<close> is a missing plan
  (\<^verbatim>\<open>plan?.shortage?.length\<close> is then undefined).  A \<open>plan_result\<close> always carries
  \<open>totalShortUnits\<close>, so the right-hand side of \<^verbatim>\<open>??\<close> is never taken.
  \<^verbatim>\<open>Math.max(...plan.shortage, 0)\<close> is the fold of \<open>max\<close> from 0.
\<close>

definition computeHireRecommendations ::
  "plan_result option \<Rightarrow> int \<Rightarrow> hire_recommendation option" where
  "computeHireRecommendations plan ptLen =
     (case plan of
        None \<Rightarrow> None
      | Some p \<Rightarrow>
          if length (shortage p) = 0 then None
          else
            let tS = totalShortUnits p;
                pk = foldl max 0 (shortage p);
                mixFT = max pk \<lfloor>(of_int tS :: rat) / 8\<rfloor>;
                mixResidual = max 0 (tS - mixFT * 8)
            in Some \<lparr> totalShort = tS, peakShort = pk,
                      minFT8 = max (ceilDiv tS 8) pk,
                      minPTcur = ceilDiv tS ptLen,
                      minPT4 = ceilDiv tS 4,
                      minPT6 = ceilDiv tS 6,
                      mixed_ft = mixFT,
                      mixed_pt = ceilDiv mixResidual ptLen,
                      mixed_ptLenHours = ptLen \<rparr>)"

section \<open>Roster builder\<close>

text \<open>
  The closure \<open>add\<close> of \<open>buildRoster\<close>, on the state \<open>(roster, idFT, idPT)\<close>.
  With \<^verbatim>\<open>lunchDur = NaN\<close> both lunch fields are \<^verbatim>\<open>NaN\<close>.
\<close>

definition add ::
  "string \<Rightarrow> int \<Rightarrow> int \<Rightarrow> string \<Rightarrow> roster_entry list \<times> nat \<times> nat
     \<Rightarrow> roster_entry list \<times> nat \<times> nat" where
  "add type start end L rs =
     (case rs of (roster, idFT, idPT) \<Rightarrow>
        let lenH = end - start;
            durMin = lenH * 60;
            lunchDur = map_option (max 0) (js_parseInt (js_or L ''30''));
            mid = (of_int (start * 60) :: rat) + of_int durMin / 2;
            ls = map_option (\<lambda>d. snap30 (mid - of_int d / 2)) lunchDur;
            le = (case (ls, lunchDur) of (Some s, Some d) \<Rightarrow> Some (s + of_int d) | _ \<Rightarrow> None);
            entry = \<lparr> r_agent = type @ ''-'' @ string_of_nat (if type = ''FT'' then idFT else idPT),
                      r_type = type, r_start = start, r_end = end, r_hours = lenH,
                      lunchStart = map_option (max (of_int (start * 60))) ls,
                      lunchEnd = map_option (min (of_int (end * 60))) le \<rparr>
        in (roster @ [entry],
            if type = ''FT'' then idFT + 1 else idFT,
            if type = ''FT'' then idPT else idPT + 1))"

text \<open>\<^verbatim>\<open>for (let k = 0; k < s.count; k++) add(type, s.start, s.end, lunchMin)\<close>\<close>

definition add_window ::
  "string \<Rightarrow> string \<Rightarrow> roster_entry list \<times> nat \<times> nat \<Rightarrow> window
     \<Rightarrow> roster_entry list \<times> nat \<times> nat" where
  "add_window type L rs s = ((add type (w_start s) (w_end s) L) ^^ nat (w_count s)) rs"

definition buildRoster :: "window list \<Rightarrow> window list \<Rightarrow> string \<Rightarrow> roster_entry list" where
  "buildRoster shiftsFT shiftsPT lunchMin =
     fst (foldl (add_window ''PT'' lunchMin)
            (foldl (add_window ''FT'' lunchMin) ([], 1, 1) shiftsFT) shiftsPT)"

section \<open>Shift planner\<close>

text \<open>
  The closure variables of \<open>buildShiftPlanStrategic\<close> as an explicit state.  The arrays
  \<open>covFT\<close> and \<open>covPT\<close> have \<open>H = 24\<close> entries; \<open>deficit\<close> is a copy of the
  requirement vector, which has 24 entries (one per hour of the day).
\<close>

record pstate =
  deficit :: "int list"
  covFT :: "int list"
  covPT :: "int list"
  placedFT :: int
  placedPT :: int
  shiftsFT :: "window list"
  shiftsPT :: "window list"

abbreviation (input) H :: nat where "H \<equiv> 24"
abbreviation (input) FT :: nat where "FT \<equiv> 8"

text \<open>
  \<^verbatim>\<open>Array.from({ length: H - FT + 1 }, (_, s) => s)\<close> and the same for \<open>PT\<close>:
  a negative length gives the empty array, so the length is \<open>25 - PT\<close> cut off at 0.
\<close>

definition startsFT :: "nat list" where
  "startsFT = [0 ..< H - FT + 1]"

definition startsPT :: "nat \<Rightarrow> nat list" where
  "startsPT PT = [0 ..< (H + 1) - PT]"

definition init_state :: "int list \<Rightarrow> pstate" where
  "init_state requiredPerHourInt =
     \<lparr> deficit = requiredPerHourInt, covFT = replicate H 0, covPT = replicate H 0,
       placedFT = 0, placedPT = 0, shiftsFT = [], shiftsPT = [] \<rparr>"

definition canPlaceFTAt :: "capacity_limits \<Rightarrow> pstate \<Rightarrow> nat \<Rightarrow> bool" where
  "canPlaceFTAt L st s =
     (if placedFT st \<ge> maxFTShifts L then False
      else list_all (\<lambda>h. \<not> (covFT st ! h \<ge> capFT L) \<and>
                          \<not> (covFT st ! h + covPT st ! h \<ge> capFT L + capPT L))
             [s ..< s + FT])"

definition canPlacePTAt :: "capacity_limits \<Rightarrow> nat \<Rightarrow> pstate \<Rightarrow> nat \<Rightarrow> bool" where
  "canPlacePTAt L PT st s =
     (if placedPT st \<ge> maxPTShifts L then False
      else list_all (\<lambda>h. \<not> (covPT st ! h \<ge> capPT L) \<and>
                          \<not> (covFT st ! h + covPT st ! h \<ge> capFT L + capPT L))
             [s ..< s + PT])"

text \<open>One round of the loop body of \<open>scoreWindow\<close>: what hour \<open>h\<close> adds to the score.\<close>

definition hourScore :: "capacity_limits \<Rightarrow> pstate \<Rightarrow> string \<Rightarrow> nat \<Rightarrow> int" where
  "hourScore L st type h =
     (let totalRoom = max 0 (capFT L + capPT L - (covFT st ! h + covPT st ! h))
      in if totalRoom \<le> 0 then 0
         else let roomType = (if type = ''FT''
                              then min totalRoom (max 0 (capFT L - covFT st ! h))
                              else min totalRoom (max 0 (capPT L - covPT st ! h)))
              in if roomType > 0 then min (deficit st ! h) roomType else 0)"

definition scoreWindow :: "capacity_limits \<Rightarrow> pstate \<Rightarrow> nat \<Rightarrow> nat \<Rightarrow> string \<Rightarrow> int" where
  "scoreWindow L st s len type = foldl (\<lambda>score h. score + hourScore L st type h) 0 [s ..< s + len]"

text \<open>
  The scan of the start hours in \<open>placeOneFT\<close> and \<open>placeOnePT\<close>, on the pair
  \<open>(bestS, best)\<close> that starts as \<open>(-1, 0)\<close>.
\<close>

definition scan_step :: "(nat \<Rightarrow> bool) \<Rightarrow> (nat \<Rightarrow> int) \<Rightarrow> int \<times> int \<Rightarrow> nat \<Rightarrow> int \<times> int" where
  "scan_step canPlace score acc s =
     (if \<not> canPlace s then acc
      else if score s > snd acc then (int s, score s) else acc)"

definition scan_starts :: "(nat \<Rightarrow> bool) \<Rightarrow> (nat \<Rightarrow> int) \<Rightarrow> nat list \<Rightarrow> int \<times> int" where
  "scan_starts canPlace score starts = foldl (scan_step canPlace score) (- 1, 0) starts"

text \<open>
  \<^verbatim>\<open>for (let h = bestS; h < bestS + len; h++) { cov[h] += 1; deficit[h] = Math.max(0, deficit[h] - 1); }\<close>
  as one pass per array.
\<close>

definition over_window :: "(int \<Rightarrow> int) \<Rightarrow> int list \<Rightarrow> nat \<Rightarrow> nat \<Rightarrow> int list" where
  "over_window f xs s len = foldl (\<lambda>ys h. ys[h := f (ys ! h)]) xs [s ..< s + len]"

text \<open>
  \<open>placeOneFT\<close> and \<open>placeOnePT\<close> return the boolean of the source together with the
  state after the call.
\<close>

definition placeOneFT :: "capacity_limits \<Rightarrow> pstate \<Rightarrow> bool \<times> pstate" where
  "placeOneFT L st =
     (if placedFT st \<ge> maxFTShifts L then (False, st)
      else
        let r = scan_starts (canPlaceFTAt L st) (\<lambda>s. scoreWindow L st s FT ''FT'') startsFT;
            bestS = fst r; best = snd r
        in if best \<le> 0 then (False, st)
           else (True,
                 st\<lparr> shiftsFT := shiftsFT st @ [\<lparr> w_start = bestS, w_end = bestS + int FT, w_count = 1 \<rparr>],
                     covFT := over_window (\<lambda>v. v + 1) (covFT st) (nat bestS) FT,
                     deficit := over_window (\<lambda>v. max 0 (v - 1)) (deficit st) (nat bestS) FT,
                     placedFT := placedFT st + 1 \<rparr>))"

definition placeOnePT :: "capacity_limits \<Rightarrow> nat \<Rightarrow> pstate \<Rightarrow> bool \<times> pstate" where
  "placeOnePT L PT st =
     (if placedPT st \<ge> maxPTShifts L then (False, st)
      else
        let r = scan_starts (canPlacePTAt L PT st) (\<lambda>s. scoreWindow L st s PT ''PT'') (startsPT PT);
            bestS = fst r; best = snd r
        in if best \<le> 0 then (False, st)
           else (True,
                 st\<lparr> shiftsPT := shiftsPT st @ [\<lparr> w_start = bestS, w_end = bestS + int PT, w_count = 1 \<rparr>],
                     covPT := over_window (\<lambda>v. v + 1) (covPT st) (nat bestS) PT,
                     deficit := over_window (\<lambda>v. max 0 (v - 1)) (deficit st) (nat bestS) PT,
                     placedPT := placedPT st + 1 \<rparr>))"

text \<open>
  The two operands of \<^verbatim>\<open>a() || b()\<close>: with \<open>ftFirst\<close> the loop is
  \<^verbatim>\<open>while (placeOneFT() || placeOnePT()) {}\<close>, without it
  \<^verbatim>\<open>while (placeOnePT() || placeOneFT()) {}\<close>.
\<close>

definition place_first :: "bool \<Rightarrow> capacity_limits \<Rightarrow> nat \<Rightarrow> pstate \<Rightarrow> bool \<times> pstate" where
  "place_first ftFirst L PT st = (if ftFirst then placeOneFT L st else placeOnePT L PT st)"

definition place_second :: "bool \<Rightarrow> capacity_limits \<Rightarrow> nat \<Rightarrow> pstate \<Rightarrow> bool \<times> pstate" where
  "place_second ftFirst L PT st = (if ftFirst then placeOnePT L PT st else placeOneFT L st)"

text \<open>The room left under the two total-shift limits: what every placement uses up.\<close>

definition room_left :: "capacity_limits \<Rightarrow> pstate \<Rightarrow> nat" where
  "room_left L st = nat (maxFTShifts L - placedFT st) + nat (maxPTShifts L - placedPT st)"

subsection \<open>Facts about one placement\<close>

lemma over_window_length [simp]: "length (over_window f xs s len) = length xs"
proof -
  have "length (foldl (\<lambda>ys h. ys[h := f (ys ! h)]) xs hs) = length xs" for hs
    by (induction hs arbitrary: xs) auto
  then show ?thesis by (simp add: over_window_def)
qed

lemma over_window_nth:
  assumes "h < length xs"
  shows "over_window f xs s len ! h = (if s \<le> h \<and> h < s + len then f (xs ! h) else xs ! h)"
proof (induction len)
  case 0
  then show ?case by (simp add: over_window_def)
next
  case (Suc len)
  have len: "length (foldl (\<lambda>ys h. ys[h := f (ys ! h)]) xs [s..<s + len]) = length xs"
    using over_window_length [of f xs s len] by (simp add: over_window_def)
  show ?case
  proof (cases "h = s + len")
    case True
    with Suc assms len show ?thesis by (simp add: over_window_def)
  next
    case False
    with Suc assms len show ?thesis by (auto simp: over_window_def nth_list_update)
  qed
qed

lemma scan_foldl:
  "foldl (scan_step can sc) acc starts = acc \<or>
   (\<exists>s \<in> set starts. can s \<and> foldl (scan_step can sc) acc starts = (int s, sc s))"
proof (induction starts arbitrary: acc)
  case Nil
  then show ?case by simp
next
  case (Cons a starts)
  show ?case
    using Cons.IH [of "scan_step can sc acc a"]
    by (auto simp: scan_step_def split: if_splits)
qed

lemma scan_starts_pos:
  assumes "0 < snd (scan_starts can sc starts)"
  shows "\<exists>s \<in> set starts. can s \<and> scan_starts can sc starts = (int s, sc s)"
  using scan_foldl [of can sc "(- 1, 0)" starts] assms
  by (auto simp: scan_starts_def)

lemma placeOneFT_success:
  assumes "fst (placeOneFT L st)"
  shows "\<exists>s. s + FT \<le> H \<and> canPlaceFTAt L st s \<and>
           snd (placeOneFT L st) =
             st\<lparr> shiftsFT := shiftsFT st @ [\<lparr> w_start = int s, w_end = int s + int FT, w_count = 1 \<rparr>],
                 covFT := over_window (\<lambda>v. v + 1) (covFT st) s FT,
                 deficit := over_window (\<lambda>v. max 0 (v - 1)) (deficit st) s FT,
                 placedFT := placedFT st + 1 \<rparr>"
proof -
  let ?r = "scan_starts (canPlaceFTAt L st) (\<lambda>s. scoreWindow L st s FT ''FT'') startsFT"
  from assms have pos: "0 < snd ?r"
    by (auto simp: placeOneFT_def Let_def split: if_splits)
  from scan_starts_pos [OF pos] obtain s where
    s: "s \<in> set startsFT" "canPlaceFTAt L st s" "?r = (int s, scoreWindow L st s FT ''FT'')"
    by blast
  from s(1) have "s + FT \<le> H" by (simp add: startsFT_def)
  moreover from assms pos s(3) have "snd (placeOneFT L st) =
             st\<lparr> shiftsFT := shiftsFT st @ [\<lparr> w_start = int s, w_end = int s + int FT, w_count = 1 \<rparr>],
                 covFT := over_window (\<lambda>v. v + 1) (covFT st) s FT,
                 deficit := over_window (\<lambda>v. max 0 (v - 1)) (deficit st) s FT,
                 placedFT := placedFT st + 1 \<rparr>"
    by (auto simp: placeOneFT_def Let_def split: if_splits)
  ultimately show ?thesis using s(2) by blast
qed

lemma placeOnePT_success:
  assumes "fst (placeOnePT L PT st)"
  shows "\<exists>s. s + PT \<le> H \<and> canPlacePTAt L PT st s \<and>
           snd (placeOnePT L PT st) =
             st\<lparr> shiftsPT := shiftsPT st @ [\<lparr> w_start = int s, w_end = int s + int PT, w_count = 1 \<rparr>],
                 covPT := over_window (\<lambda>v. v + 1) (covPT st) s PT,
                 deficit := over_window (\<lambda>v. max 0 (v - 1)) (deficit st) s PT,
                 placedPT := placedPT st + 1 \<rparr>"
proof -
  let ?r = "scan_starts (canPlacePTAt L PT st) (\<lambda>s. scoreWindow L st s PT ''PT'') (startsPT PT)"
  from assms have pos: "0 < snd ?r"
    by (auto simp: placeOnePT_def Let_def split: if_splits)
  from scan_starts_pos [OF pos] obtain s where
    s: "s \<in> set (startsPT PT)" "canPlacePTAt L PT st s" "?r = (int s, scoreWindow L st s PT ''PT'')"
    by blast
  from s(1) have "s + PT \<le> H" by (simp add: startsPT_def)
  moreover from assms pos s(3) have "snd (placeOnePT L PT st) =
             st\<lparr> shiftsPT := shiftsPT st @ [\<lparr> w_start = int s, w_end = int s + int PT, w_count = 1 \<rparr>],
                 covPT := over_window (\<lambda>v. v + 1) (covPT st) s PT,
                 deficit := over_window (\<lambda>v. max 0 (v - 1)) (deficit st) s PT,
                 placedPT := placedPT st + 1 \<rparr>"
    by (auto simp: placeOnePT_def Let_def split: if_splits)
  ultimately show ?thesis using s(2) by blast
qed

lemma placeOneFT_room:
  "fst (placeOneFT L st) \<Longrightarrow> room_left L (snd (placeOneFT L st)) < room_left L st"
  by (auto simp: placeOneFT_def room_left_def Let_def split: if_splits)

lemma placeOnePT_room:
  "fst (placeOnePT L PT st) \<Longrightarrow> room_left L (snd (placeOnePT L PT st)) < room_left L st"
  by (auto simp: placeOnePT_def room_left_def Let_def split: if_splits)

lemma placeOneFT_fail: "\<not> fst (placeOneFT L st) \<Longrightarrow> snd (placeOneFT L st) = st"
  by (auto simp: placeOneFT_def Let_def split: if_splits)

lemma placeOnePT_fail: "\<not> fst (placeOnePT L PT st) \<Longrightarrow> snd (placeOnePT L PT st) = st"
  by (auto simp: placeOnePT_def Let_def split: if_splits)

lemma place_first_room:
  "fst (place_first f L PT st) \<Longrightarrow> room_left L (snd (place_first f L PT st)) < room_left L st"
  by (cases f) (simp_all add: place_first_def placeOneFT_room placeOnePT_room)

lemma place_second_room:
  "fst (place_second f L PT st) \<Longrightarrow> room_left L (snd (place_second f L PT st)) < room_left L st"
  by (cases f) (simp_all add: place_second_def placeOneFT_room placeOnePT_room)

lemma place_first_fail: "\<not> fst (place_first f L PT st) \<Longrightarrow> snd (place_first f L PT st) = st"
  by (cases f) (simp_all add: place_first_def placeOneFT_fail placeOnePT_fail)

lemma place_second_fail: "\<not> fst (place_second f L PT st) \<Longrightarrow> snd (place_second f L PT st) = st"
  by (cases f) (simp_all add: place_second_def placeOneFT_fail placeOnePT_fail)

lemma placeOneFT_room_le: "room_left L (snd (placeOneFT L st)) \<le> room_left L st"
  using placeOneFT_room [of L st] placeOneFT_fail [of L st] by (cases "fst (placeOneFT L st)") auto

lemma placeOnePT_room_le: "room_left L (snd (placeOnePT L PT st)) \<le> room_left L st"
  using placeOnePT_room [of L PT st] placeOnePT_fail [of L PT st]
  by (cases "fst (placeOnePT L PT st)") auto

text \<open>
  \<^verbatim>\<open>while (a() || b()) {}\<close>.  The counter \<open>n\<close> is not in the source: it counts the
  evaluations of the loop test, each of which is one round of attempts.
\<close>

function while_either ::
  "bool \<Rightarrow> capacity_limits \<Rightarrow> nat \<Rightarrow> nat \<Rightarrow> pstate \<Rightarrow> nat \<times> pstate" where
  "while_either ftFirst L PT n st =
     (let r1 = place_first ftFirst L PT st
      in if fst r1 then while_either ftFirst L PT (n + 1) (snd r1)
         else let r2 = place_second ftFirst L PT (snd r1)
              in if fst r2 then while_either ftFirst L PT (n + 1) (snd r2)
                 else (n + 1, snd r2))"
  by pat_completeness auto
termination
proof (relation "measure (\<lambda>(f, L, PT, n, st). room_left L st)")
  show "wf (measure (\<lambda>(f, L, PT, n, st). room_left L st))" by simp
next
  fix ftFirst L PT n st r1
  assume "r1 = place_first ftFirst L PT st" "fst r1"
  then show "((ftFirst, L, PT, n + 1, snd r1), (ftFirst, L, PT, n, st))
               \<in> measure (\<lambda>(f, L, PT, n, st). room_left L st)"
    by (simp add: place_first_room)
next
  fix ftFirst L PT n st r1 r2
  assume "r1 = place_first ftFirst L PT st" "\<not> fst r1"
    "r2 = place_second ftFirst L PT (snd r1)" "fst r2"
  then show "((ftFirst, L, PT, n + 1, snd r2), (ftFirst, L, PT, n, st))
               \<in> measure (\<lambda>(f, L, PT, n, st). room_left L st)"
    using place_second_room [of ftFirst L PT st] by (simp add: place_first_fail)
qed

declare while_either.simps [simp del]

text \<open>
  The test \<^verbatim>\<open>share < target\<close> of the mixed strategy, with
  \<^verbatim>\<open>share = (ft + pt) > 0 ? ft / (ft + pt) : 1\<close>; a comparison with \<^verbatim>\<open>NaN\<close> is false.
\<close>

definition share_below :: "int \<Rightarrow> int \<Rightarrow> rat option \<Rightarrow> bool" where
  "share_below ft pt target =
     (let share = (if ft + pt > 0 then (of_int ft :: rat) / of_int (ft + pt) else 1)
      in case target of None \<Rightarrow> False | Some t \<Rightarrow> share < t)"

text \<open>\<^verbatim>\<open>Math.min(100, Math.max(0, opts.mixedFtPercent)) / 100\<close>\<close>

definition mixed_target :: "int option \<Rightarrow> rat option" where
  "mixed_target pct = map_option (\<lambda>p. of_int (min 100 (max 0 p)) / 100) pct"

text \<open>
  \<^verbatim>\<open>while (progress) { ... }\<close> of the mixed strategy; one call is one run of the body,
  counted in \<open>n\<close>.
\<close>

function mixed_loop ::
  "capacity_limits \<Rightarrow> nat \<Rightarrow> rat option \<Rightarrow> nat \<Rightarrow> int \<Rightarrow> int \<Rightarrow> pstate \<Rightarrow> nat \<times> pstate" where
  "mixed_loop L PT target n ft pt st =
     (if share_below ft pt target then
        let r1 = placeOneFT L st; r2 = placeOnePT L PT (snd r1)
        in if fst r1 \<or> fst r2
           then mixed_loop L PT target (n + 1)
                  (if fst r1 then ft + 1 else ft) (if fst r2 then pt + 1 else pt) (snd r2)
           else (n + 1, snd r2)
      else
        let r1 = placeOnePT L PT st; r2 = placeOneFT L (snd r1)
        in if fst r1 \<or> fst r2
           then mixed_loop L PT target (n + 1)
                  (if fst r2 then ft + 1 else ft) (if fst r1 then pt + 1 else pt) (snd r2)
           else (n + 1, snd r2))"
  by pat_completeness auto
termination
proof (relation "measure (\<lambda>(L, PT, t, n, ft, pt, st). room_left L st)")
  show "wf (measure (\<lambda>(L, PT, t, n, ft, pt, st). room_left L st))" by simp
next
  fix L PT target n ft pt st r1 r2
  assume "r1 = placeOneFT L st" "r2 = placeOnePT L PT (snd r1)" "fst r1 \<or> fst r2"
  then show "((L, PT, target, n + 1, if fst r1 then ft + 1 else ft,
                if fst r2 then pt + 1 else pt, snd r2), (L, PT, target, n, ft, pt, st))
               \<in> measure (\<lambda>(L, PT, t, n, ft, pt, st). room_left L st)"
    using placeOneFT_room [of L st] placeOneFT_room_le [of L st]
      placeOnePT_room [of L PT "snd r1"] placeOnePT_room_le [of L PT "snd r1"]
    by auto
next
  fix L PT target n ft pt st r1 r2
  assume "r1 = placeOnePT L PT st" "r2 = placeOneFT L (snd r1)" "fst r1 \<or> fst r2"
  then show "((L, PT, target, n + 1, if fst r2 then ft + 1 else ft,
                if fst r1 then pt + 1 else pt, snd r2), (L, PT, target, n, ft, pt, st))
               \<in> measure (\<lambda>(L, PT, t, n, ft, pt, st). room_left L st)"
    using placeOnePT_room [of L PT st] placeOnePT_room_le [of L PT st]
      placeOneFT_room [of L "snd r1"] placeOneFT_room_le [of L "snd r1"]
    by auto
qed

declare mixed_loop.simps [simp del]

definition placeLoop :: "capacity_limits \<Rightarrow> plan_opts \<Rightarrow> pstate \<Rightarrow> nat \<times> pstate" where
  "placeLoop L opts st =
     (if strategy opts = ''ft_first'' then while_either True L (ptLenHours opts) 0 st
      else if strategy opts = ''pt_first'' then while_either False L (ptLenHours opts) 0 st
      else if strategy opts = ''mixed''
        then mixed_loop L (ptLenHours opts) (mixed_target (mixedFtPercent opts)) 0 0 0 st
      else if isWeekend opts then while_either False L (ptLenHours opts) 0 st
      else while_either True L (ptLenHours opts) 0 st)"

text \<open>
  \<open>merge\<close>: \<^verbatim>\<open>arr.sort((a, b) => a.start - b.start || a.end - b.end)\<close>, a stable sort,
  then a pass that adds each window to the last one of \<open>out\<close> when both have the same
  start and end.
\<close>

definition cmp :: "window \<Rightarrow> window \<Rightarrow> int" where
  "cmp a b = (if w_start a - w_start b \<noteq> 0 then w_start a - w_start b else w_end a - w_end b)"

fun insert_window :: "window \<Rightarrow> window list \<Rightarrow> window list" where
  "insert_window p [] = [p]"
| "insert_window p (q # qs) = (if cmp p q \<le> 0 then p # q # qs else q # insert_window p qs)"

definition sort_windows :: "window list \<Rightarrow> window list" where
  "sort_windows arr = foldr insert_window arr []"

definition merge_step :: "window list \<Rightarrow> window \<Rightarrow> window list" where
  "merge_step out p =
     (if out \<noteq> [] \<and> w_start (last out) = w_start p \<and> w_end (last out) = w_end p
      then butlast out @ [(last out)\<lparr> w_count := w_count (last out) + w_count p \<rparr>]
      else out @ [p])"

definition merge :: "window list \<Rightarrow> window list" where
  "merge arr = foldl merge_step [] (sort_windows arr)"

definition buildShiftPlanStrategic ::
  "int list \<Rightarrow> capacity_limits \<Rightarrow> plan_opts \<Rightarrow> plan_result" where
  "buildShiftPlanStrategic requiredPerHourInt L opts =
     (let st = snd (placeLoop L opts (init_state requiredPerHourInt));
          mergedFT = merge (shiftsFT st);
          mergedPT = merge (shiftsPT st);
          cov = map (\<lambda>i. covFT st ! i + covPT st ! i) [0 ..< length (covFT st)];
          short = map (\<lambda>h. max 0 (requiredPerHourInt ! h - cov ! h)) [0 ..< length cov];
          exc = map (\<lambda>h. max 0 (cov ! h - requiredPerHourInt ! h)) [0 ..< length cov]
      in \<lparr> plan_shiftsFT = mergedFT, plan_shiftsPT = mergedPT,
           coverage = cov, required = requiredPerHourInt,
           shortage = short, excess = exc,
           maxConcurrent = foldl max (hd cov) (tl cov),
           limits = L,
           hoursShort = foldl (\<lambda>n v. n + (if v > 0 then 1 else 0)) 0 short,
           totalShortUnits = foldl (\<lambda>s v. s + v) 0 short \<rparr>)"

section \<open>States of the placement loop\<close>

text \<open>
  The states the placement loop can be in: the initial state, and every state that a
  successful \<open>placeOneFT\<close> or \<open>placeOnePT\<close> leads to from such a state.
\<close>

inductive reachable :: "capacity_limits \<Rightarrow> nat \<Rightarrow> int list \<Rightarrow> pstate \<Rightarrow> bool"
  for L :: capacity_limits and PT :: nat and req :: "int list" where
  reach_init: "reachable L PT req (init_state req)"
| reach_FT: "reachable L PT req st \<Longrightarrow> fst (placeOneFT L st) \<Longrightarrow>
             reachable L PT req (snd (placeOneFT L st))"
| reach_PT: "reachable L PT req st \<Longrightarrow> fst (placeOnePT L PT st) \<Longrightarrow>
             reachable L PT req (snd (placeOnePT L PT st))"

text \<open>
  The coverage of hour \<open>h\<close> that a list of windows implies: the sum of the counts of
  the windows whose interval \<open>[start, end)\<close> contains \<open>h\<close>; and the number of shifts in
  a list of windows.
\<close>

definition window_cov :: "window list \<Rightarrow> nat \<Rightarrow> int" where
  "window_cov ws h = (\<Sum>w\<leftarrow>ws. if w_start w \<le> int h \<and> int h < w_end w then w_count w else 0)"

definition total_count :: "window list \<Rightarrow> int" where
  "total_count ws = (\<Sum>w\<leftarrow>ws. w_count w)"

lemma canPlaceFTAt_D:
  "canPlaceFTAt L st s \<Longrightarrow> placedFT st < maxFTShifts L \<and>
     (\<forall>h. s \<le> h \<and> h < s + FT \<longrightarrow> covFT st ! h < capFT L \<and>
        covFT st ! h + covPT st ! h < capFT L + capPT L)"
  by (simp add: canPlaceFTAt_def list_all_iff Ball_def not_le split: if_splits)

lemma canPlacePTAt_D:
  "canPlacePTAt L PT st s \<Longrightarrow> placedPT st < maxPTShifts L \<and>
     (\<forall>h. s \<le> h \<and> h < s + PT \<longrightarrow> covPT st ! h < capPT L \<and>
        covFT st ! h + covPT st ! h < capFT L + capPT L)"
  by (simp add: canPlacePTAt_def list_all_iff Ball_def not_le split: if_splits)

lemma reachable_step_FT: "reachable L PT req st \<Longrightarrow> reachable L PT req (snd (placeOneFT L st))"
  using reach_FT [of L PT req st] placeOneFT_fail [of L st] by (cases "fst (placeOneFT L st)") auto

lemma reachable_step_PT: "reachable L PT req st \<Longrightarrow> reachable L PT req (snd (placeOnePT L PT st))"
  using reach_PT [of L PT req st] placeOnePT_fail [of L PT st]
  by (cases "fst (placeOnePT L PT st)") auto

lemma reachable_lengths:
  "reachable L PT req st \<Longrightarrow>
     length (covFT st) = H \<and> length (covPT st) = H \<and> length (deficit st) = length req"
proof (induction rule: reachable.induct)
  case reach_init
  show ?case by (simp add: init_state_def)
next
  case (reach_FT st)
  from placeOneFT_success [OF reach_FT.hyps(2)] obtain s where
    "snd (placeOneFT L st) =
       st\<lparr> shiftsFT := shiftsFT st @ [\<lparr> w_start = int s, w_end = int s + int FT, w_count = 1 \<rparr>],
           covFT := over_window (\<lambda>v. v + 1) (covFT st) s FT,
           deficit := over_window (\<lambda>v. max 0 (v - 1)) (deficit st) s FT,
           placedFT := placedFT st + 1 \<rparr>" by blast
  with reach_FT.IH show ?case by simp
next
  case (reach_PT st)
  from placeOnePT_success [OF reach_PT.hyps(2)] obtain s where
    "snd (placeOnePT L PT st) =
       st\<lparr> shiftsPT := shiftsPT st @ [\<lparr> w_start = int s, w_end = int s + int PT, w_count = 1 \<rparr>],
           covPT := over_window (\<lambda>v. v + 1) (covPT st) s PT,
           deficit := over_window (\<lambda>v. max 0 (v - 1)) (deficit st) s PT,
           placedPT := placedPT st + 1 \<rparr>" by blast
  with reach_PT.IH show ?case by simp
qed

lemma reachable_caps:
  assumes "0 \<le> capFT L" "0 \<le> capPT L"
  shows "reachable L PT req st \<Longrightarrow>
     \<forall>h<H. covFT st ! h \<le> capFT L \<and> covPT st ! h \<le> capPT L"
proof (induction rule: reachable.induct)
  case reach_init
  from assms show ?case by (simp add: init_state_def)
next
  case (reach_FT st)
  from placeOneFT_success [OF reach_FT.hyps(2)] obtain s where s: "s + FT \<le> H"
    "canPlaceFTAt L st s"
    "snd (placeOneFT L st) =
       st\<lparr> shiftsFT := shiftsFT st @ [\<lparr> w_start = int s, w_end = int s + int FT, w_count = 1 \<rparr>],
           covFT := over_window (\<lambda>v. v + 1) (covFT st) s FT,
           deficit := over_window (\<lambda>v. max 0 (v - 1)) (deficit st) s FT,
           placedFT := placedFT st + 1 \<rparr>" by blast
  have len: "length (covFT st) = H" using reachable_lengths [OF reach_FT.hyps(1)] by simp
  show ?case
  proof (intro allI impI)
    fix h :: nat assume h: "h < H"
    from canPlaceFTAt_D [OF s(2)] have "s \<le> h \<and> h < s + FT \<Longrightarrow> covFT st ! h < capFT L"
      by blast
    with reach_FT.IH h len show "covFT (snd (placeOneFT L st)) ! h \<le> capFT L \<and>
        covPT (snd (placeOneFT L st)) ! h \<le> capPT L"
      by (auto simp: s(3) over_window_nth)
  qed
next
  case (reach_PT st)
  from placeOnePT_success [OF reach_PT.hyps(2)] obtain s where s: "s + PT \<le> H"
    "canPlacePTAt L PT st s"
    "snd (placeOnePT L PT st) =
       st\<lparr> shiftsPT := shiftsPT st @ [\<lparr> w_start = int s, w_end = int s + int PT, w_count = 1 \<rparr>],
           covPT := over_window (\<lambda>v. v + 1) (covPT st) s PT,
           deficit := over_window (\<lambda>v. max 0 (v - 1)) (deficit st) s PT,
           placedPT := placedPT st + 1 \<rparr>" by blast
  have len: "length (covPT st) = H" using reachable_lengths [OF reach_PT.hyps(1)] by simp
  show ?case
  proof (intro allI impI)
    fix h :: nat assume h: "h < H"
    from canPlacePTAt_D [OF s(2)] have "s \<le> h \<and> h < s + PT \<Longrightarrow> covPT st ! h < capPT L"
      by blast
    with reach_PT.IH h len show "covFT (snd (placeOnePT L PT st)) ! h \<le> capFT L \<and>
        covPT (snd (placeOnePT L PT st)) ! h \<le> capPT L"
      by (auto simp: s(3) over_window_nth)
  qed
qed

lemma window_cov_snoc:
  "window_cov (ws @ [w]) h = window_cov ws h + (if w_start w \<le> int h \<and> int h < w_end w then w_count w else 0)"
  by (simp add: window_cov_def)

lemma reachable_cov:
  "reachable L PT req st \<Longrightarrow>
     \<forall>h<H. covFT st ! h = window_cov (shiftsFT st) h \<and> covPT st ! h = window_cov (shiftsPT st) h"
proof (induction rule: reachable.induct)
  case reach_init
  show ?case by (simp add: init_state_def window_cov_def)
next
  case (reach_FT st)
  from placeOneFT_success [OF reach_FT.hyps(2)] obtain s where s: "s + FT \<le> H"
    "snd (placeOneFT L st) =
       st\<lparr> shiftsFT := shiftsFT st @ [\<lparr> w_start = int s, w_end = int s + int FT, w_count = 1 \<rparr>],
           covFT := over_window (\<lambda>v. v + 1) (covFT st) s FT,
           deficit := over_window (\<lambda>v. max 0 (v - 1)) (deficit st) s FT,
           placedFT := placedFT st + 1 \<rparr>" by blast
  have len: "length (covFT st) = H" using reachable_lengths [OF reach_FT.hyps(1)] by simp
  from reach_FT.IH len show ?case
    by (auto simp: s(2) over_window_nth window_cov_snoc)
next
  case (reach_PT st)
  from placeOnePT_success [OF reach_PT.hyps(2)] obtain s where s: "s + PT \<le> H"
    "snd (placeOnePT L PT st) =
       st\<lparr> shiftsPT := shiftsPT st @ [\<lparr> w_start = int s, w_end = int s + int PT, w_count = 1 \<rparr>],
           covPT := over_window (\<lambda>v. v + 1) (covPT st) s PT,
           deficit := over_window (\<lambda>v. max 0 (v - 1)) (deficit st) s PT,
           placedPT := placedPT st + 1 \<rparr>" by blast
  have len: "length (covPT st) = H" using reachable_lengths [OF reach_PT.hyps(1)] by simp
  from reach_PT.IH len show ?case
    by (auto simp: s(2) over_window_nth window_cov_snoc)
qed

lemma reachable_count:
  assumes "0 \<le> maxFTShifts L" "0 \<le> maxPTShifts L"
  shows "reachable L PT req st \<Longrightarrow>
     placedFT st = total_count (shiftsFT st) \<and> placedPT st = total_count (shiftsPT st) \<and>
     placedFT st \<le> maxFTShifts L \<and> placedPT st \<le> maxPTShifts L"
proof (induction rule: reachable.induct)
  case reach_init
  from assms show ?case by (simp add: init_state_def total_count_def)
next
  case (reach_FT st)
  from placeOneFT_success [OF reach_FT.hyps(2)] obtain s where s: "canPlaceFTAt L st s"
    "snd (placeOneFT L st) =
       st\<lparr> shiftsFT := shiftsFT st @ [\<lparr> w_start = int s, w_end = int s + int FT, w_count = 1 \<rparr>],
           covFT := over_window (\<lambda>v. v + 1) (covFT st) s FT,
           deficit := over_window (\<lambda>v. max 0 (v - 1)) (deficit st) s FT,
           placedFT := placedFT st + 1 \<rparr>" by blast
  from reach_FT.IH canPlaceFTAt_D [OF s(1)] show ?case
    by (simp add: s(2) total_count_def)
next
  case (reach_PT st)
  from placeOnePT_success [OF reach_PT.hyps(2)] obtain s where s: "canPlacePTAt L PT st s"
    "snd (placeOnePT L PT st) =
       st\<lparr> shiftsPT := shiftsPT st @ [\<lparr> w_start = int s, w_end = int s + int PT, w_count = 1 \<rparr>],
           covPT := over_window (\<lambda>v. v + 1) (covPT st) s PT,
           deficit := over_window (\<lambda>v. max 0 (v - 1)) (deficit st) s PT,
           placedPT := placedPT st + 1 \<rparr>" by blast
  from reach_PT.IH canPlacePTAt_D [OF s(1)] show ?case
    by (simp add: s(2) total_count_def)
qed

lemma reachable_deficit:
  assumes "length req = H" "\<forall>h<H. 0 \<le> req ! h"
  shows "reachable L PT req st \<Longrightarrow>
     \<forall>h<H. deficit st ! h = max 0 (req ! h - (covFT st ! h + covPT st ! h))"
proof (induction rule: reachable.induct)
  case reach_init
  from assms show ?case by (simp add: init_state_def)
next
  case (reach_FT st)
  from placeOneFT_success [OF reach_FT.hyps(2)] obtain s where s: "s + FT \<le> H"
    "snd (placeOneFT L st) =
       st\<lparr> shiftsFT := shiftsFT st @ [\<lparr> w_start = int s, w_end = int s + int FT, w_count = 1 \<rparr>],
           covFT := over_window (\<lambda>v. v + 1) (covFT st) s FT,
           deficit := over_window (\<lambda>v. max 0 (v - 1)) (deficit st) s FT,
           placedFT := placedFT st + 1 \<rparr>" by blast
  have len: "length (covFT st) = H" "length (deficit st) = H"
    using reachable_lengths [OF reach_FT.hyps(1)] assms(1) by simp_all
  from reach_FT.IH len show ?case
    by (auto simp: s(2) over_window_nth)
next
  case (reach_PT st)
  from placeOnePT_success [OF reach_PT.hyps(2)] obtain s where s: "s + PT \<le> H"
    "snd (placeOnePT L PT st) =
       st\<lparr> shiftsPT := shiftsPT st @ [\<lparr> w_start = int s, w_end = int s + int PT, w_count = 1 \<rparr>],
           covPT := over_window (\<lambda>v. v + 1) (covPT st) s PT,
           deficit := over_window (\<lambda>v. max 0 (v - 1)) (deficit st) s PT,
           placedPT := placedPT st + 1 \<rparr>" by blast
  have len: "length (covPT st) = H" "length (deficit st) = H"
    using reachable_lengths [OF reach_PT.hyps(1)] assms(1) by simp_all
  from reach_PT.IH len show ?case
    by (auto simp: s(2) over_window_nth)
qed

lemma while_either_reachable:
  "reachable L PT req st \<Longrightarrow> reachable L PT req (snd (while_either f L PT n st))"
proof (induction f L PT n st rule: while_either.induct)
  case (1 ftFirst L PT n st)
  have r1: "reachable L PT req (snd (place_first ftFirst L PT st))"
    using "1.prems" by (cases ftFirst) (simp_all add: place_first_def reachable_step_FT reachable_step_PT)
  have r2: "reachable L PT req (snd (place_second ftFirst L PT (snd (place_first ftFirst L PT st))))"
    using r1 by (cases ftFirst) (simp_all add: place_second_def reachable_step_FT reachable_step_PT)
  show ?case
    using "1.IH" r1 r2
    by (subst while_either.simps) (auto simp: Let_def)
qed

lemma mixed_loop_reachable:
  "reachable L PT req st \<Longrightarrow> reachable L PT req (snd (mixed_loop L PT t n ft pt st))"
proof (induction L PT t n ft pt st rule: mixed_loop.induct)
  case (1 L PT target n ft pt st)
  have a: "reachable L PT req (snd (placeOnePT L PT (snd (placeOneFT L st))))"
    using "1.prems" by (simp add: reachable_step_FT reachable_step_PT)
  have b: "reachable L PT req (snd (placeOneFT L (snd (placeOnePT L PT st))))"
    using "1.prems" by (simp add: reachable_step_FT reachable_step_PT)
  show ?case
    using "1.IH" a b
    by (subst mixed_loop.simps) (auto simp: Let_def)
qed

lemma placeLoop_reachable:
  "reachable L (ptLenHours opts) req (snd (placeLoop L opts (init_state req)))"
  by (simp add: placeLoop_def while_either_reachable mixed_loop_reachable reach_init)

section \<open>The merged windows keep coverage and head count\<close>

lemma sum_insert_window:
  "(\<Sum>w\<leftarrow>insert_window p qs. g w) = g p + (\<Sum>w\<leftarrow>qs. (g w :: int))"
  by (induction qs) auto

lemma sum_sort_windows: "(\<Sum>w\<leftarrow>sort_windows ws. g w) = (\<Sum>w\<leftarrow>ws. (g w :: int))"
  by (induction ws) (auto simp: sort_windows_def sum_insert_window)

lemma sum_merge_step:
  assumes "\<And>a b. w_start a = w_start b \<Longrightarrow> w_end a = w_end b \<Longrightarrow>
             g (a\<lparr> w_count := w_count a + w_count b \<rparr>) = g a + (g b :: int)"
  shows "(\<Sum>w\<leftarrow>merge_step out p. g w) = (\<Sum>w\<leftarrow>out. g w) + g p"
proof (cases "out \<noteq> [] \<and> w_start (last out) = w_start p \<and> w_end (last out) = w_end p")
  case True
  then have "out = butlast out @ [last out]" by simp
  then have "(\<Sum>w\<leftarrow>out. g w) = (\<Sum>w\<leftarrow>butlast out. g w) + g (last out)"
    by (metis (no_types, lifting) list.simps(8,9) map_append sum_list.Cons sum_list.Nil sum_list.append add.right_neutral)
  with True assms [of "last out" p] show ?thesis by (simp add: merge_step_def)
next
  case False
  then show ?thesis by (auto simp: merge_step_def)
qed

lemma sum_foldl_merge_step:
  assumes "\<And>a b. w_start a = w_start b \<Longrightarrow> w_end a = w_end b \<Longrightarrow>
             g (a\<lparr> w_count := w_count a + w_count b \<rparr>) = g a + (g b :: int)"
  shows "(\<Sum>w\<leftarrow>foldl merge_step out ws. g w) = (\<Sum>w\<leftarrow>out. g w) + (\<Sum>w\<leftarrow>ws. g w)"
  by (induction ws arbitrary: out) (simp_all add: sum_merge_step [of g, OF assms])

lemma window_cov_merge: "window_cov (merge ws) h = window_cov ws h"
proof -
  let ?g = "\<lambda>w. if w_start w \<le> int h \<and> int h < w_end w then w_count w else 0"
  have "(\<Sum>w\<leftarrow>foldl merge_step [] (sort_windows ws). ?g w) = (\<Sum>w\<leftarrow>sort_windows ws. ?g w)"
    by (subst sum_foldl_merge_step) simp_all
  then show ?thesis by (simp add: window_cov_def merge_def sum_sort_windows)
qed

lemma total_count_merge: "total_count (merge ws) = total_count ws"
proof -
  have "(\<Sum>w\<leftarrow>foldl merge_step [] (sort_windows ws). w_count w) = (\<Sum>w\<leftarrow>sort_windows ws. w_count w)"
    by (subst sum_foldl_merge_step) simp_all
  then show ?thesis by (simp add: total_count_def merge_def sum_sort_windows)
qed

text \<open>The state in which the placement loop ends.\<close>

definition final_state :: "int list \<Rightarrow> capacity_limits \<Rightarrow> plan_opts \<Rightarrow> pstate" where
  "final_state req L opts = snd (placeLoop L opts (init_state req))"

lemma final_reachable: "reachable L (ptLenHours opts) req (final_state req L opts)"
  by (simp add: final_state_def placeLoop_reachable)

lemma plan_fields:
  "plan_shiftsFT (buildShiftPlanStrategic req L opts) = merge (shiftsFT (final_state req L opts))"
  "plan_shiftsPT (buildShiftPlanStrategic req L opts) = merge (shiftsPT (final_state req L opts))"
  "coverage (buildShiftPlanStrategic req L opts) =
     map (\<lambda>i. covFT (final_state req L opts) ! i + covPT (final_state req L opts) ! i) [0 ..< H]"
  "required (buildShiftPlanStrategic req L opts) = req"
  "shortage (buildShiftPlanStrategic req L opts) =
     map (\<lambda>h. max 0 (req ! h - (covFT (final_state req L opts) ! h + covPT (final_state req L opts) ! h))) [0 ..< H]"
  "excess (buildShiftPlanStrategic req L opts) =
     map (\<lambda>h. max 0 (covFT (final_state req L opts) ! h + covPT (final_state req L opts) ! h - req ! h)) [0 ..< H]"
  using reachable_lengths [OF final_reachable [of L opts req]]
  by (simp_all add: buildShiftPlanStrategic_def Let_def final_state_def [symmetric] cong: map_cong)

text \<open>
  Claim C1 (cap invariant).  For a requirement vector of 24 integers and limits with
  non-negative caps, under every strategy and part-time length, the planner ends with
  \<open>covFT[h] \<le> capFT\<close>, \<open>covPT[h] \<le> capPT\<close> and \<open>covFT[h] + covPT[h] \<le> capFT + capPT\<close>
  for every hour \<open>h\<close> in \<open>0..23\<close>, and the same holds for the coverage that the returned
  (merged) windows of each class imply.
\<close>

theorem cap_invariant:
  assumes "length req = H" "0 \<le> capFT L" "0 \<le> capPT L"
  shows "\<forall>h<H. covFT (final_state req L opts) ! h \<le> capFT L \<and>
               covPT (final_state req L opts) ! h \<le> capPT L \<and>
               covFT (final_state req L opts) ! h + covPT (final_state req L opts) ! h
                 \<le> capFT L + capPT L \<and>
               window_cov (plan_shiftsFT (buildShiftPlanStrategic req L opts)) h \<le> capFT L \<and>
               window_cov (plan_shiftsPT (buildShiftPlanStrategic req L opts)) h \<le> capPT L \<and>
               window_cov (plan_shiftsFT (buildShiftPlanStrategic req L opts)) h +
               window_cov (plan_shiftsPT (buildShiftPlanStrategic req L opts)) h
                 \<le> capFT L + capPT L"
proof (intro allI impI)
  fix h :: nat assume h: "h < H"
  let ?st = "final_state req L opts"
  have r: "reachable L (ptLenHours opts) req ?st" by (rule final_reachable)
  from reachable_caps [OF assms(2,3) r] h
  have c: "covFT ?st ! h \<le> capFT L" "covPT ?st ! h \<le> capPT L" by auto
  from reachable_cov [OF r] h
  have w: "covFT ?st ! h = window_cov (shiftsFT ?st) h" "covPT ?st ! h = window_cov (shiftsPT ?st) h"
    by auto
  from c w show "covFT ?st ! h \<le> capFT L \<and> covPT ?st ! h \<le> capPT L \<and>
      covFT ?st ! h + covPT ?st ! h \<le> capFT L + capPT L \<and>
      window_cov (plan_shiftsFT (buildShiftPlanStrategic req L opts)) h \<le> capFT L \<and>
      window_cov (plan_shiftsPT (buildShiftPlanStrategic req L opts)) h \<le> capPT L \<and>
      window_cov (plan_shiftsFT (buildShiftPlanStrategic req L opts)) h +
      window_cov (plan_shiftsPT (buildShiftPlanStrategic req L opts)) h \<le> capFT L + capPT L"
    by (simp add: plan_fields window_cov_merge)
qed

text \<open>
  Claim C2 (head count invariant).  With non-negative total limits, the counts of the
  returned full-time windows sum to at most \<open>maxFTShifts\<close>, and those of the returned
  part-time windows to at most \<open>maxPTShifts\<close>.
\<close>

theorem headcount_invariant:
  assumes "length req = H" "0 \<le> maxFTShifts L" "0 \<le> maxPTShifts L"
  shows "total_count (plan_shiftsFT (buildShiftPlanStrategic req L opts)) \<le> maxFTShifts L \<and>
         total_count (plan_shiftsPT (buildShiftPlanStrategic req L opts)) \<le> maxPTShifts L"
  using reachable_count [OF assms(2,3) final_reachable [of L opts req]]
  by (simp add: plan_fields total_count_merge)

text \<open>
  Claim C3 (consistency of the result).  In the returned plan, for every hour \<open>h\<close>,
  \<open>coverage[h]\<close> is the sum of the counts of the returned windows of both classes whose
  interval \<open>[start, end)\<close> contains \<open>h\<close>, \<open>shortage[h] = max(0, required[h] - coverage[h])\<close>
  and \<open>excess[h] = max(0, coverage[h] - required[h])\<close>.
\<close>

theorem plan_consistent:
  assumes "length req = H"
  shows "length (coverage (buildShiftPlanStrategic req L opts)) = H \<and>
         length (shortage (buildShiftPlanStrategic req L opts)) = H \<and>
         length (excess (buildShiftPlanStrategic req L opts)) = H \<and>
         (\<forall>h<H. coverage (buildShiftPlanStrategic req L opts) ! h =
                   window_cov (plan_shiftsFT (buildShiftPlanStrategic req L opts)) h +
                   window_cov (plan_shiftsPT (buildShiftPlanStrategic req L opts)) h \<and>
                 shortage (buildShiftPlanStrategic req L opts) ! h =
                   max 0 (required (buildShiftPlanStrategic req L opts) ! h -
                          coverage (buildShiftPlanStrategic req L opts) ! h) \<and>
                 excess (buildShiftPlanStrategic req L opts) ! h =
                   max 0 (coverage (buildShiftPlanStrategic req L opts) ! h -
                          required (buildShiftPlanStrategic req L opts) ! h))"
  using reachable_cov [OF final_reachable [of L opts req]]
  by (simp add: plan_fields window_cov_merge)

text \<open>
  Claim C10 (loop invariant of the deficit).  For a requirement vector of 24
  non-negative integers (what the caller passes: \<^verbatim>\<open>Math.max(0, Math.ceil(r.Staff ?? 0))\<close>),
  in every state the placement loop can reach, \<open>deficit[h] = max(0, required[h] -
  (covFT[h] + covPT[h]))\<close> for every hour and no entry of \<open>deficit\<close> is negative; the
  loop ends in such a state, and the returned shortage vector is the final deficit vector.
\<close>

theorem deficit_invariant:
  assumes "length req = H" "\<forall>h<H. 0 \<le> req ! h"
  shows "(\<forall>st. reachable L (ptLenHours opts) req st \<longrightarrow>
            (\<forall>h<H. deficit st ! h = max 0 (req ! h - (covFT st ! h + covPT st ! h)) \<and>
                    0 \<le> deficit st ! h)) \<and>
         reachable L (ptLenHours opts) req (final_state req L opts) \<and>
         shortage (buildShiftPlanStrategic req L opts) = deficit (final_state req L opts)"
proof (intro conjI allI impI)
  fix st h
  assume r: "reachable L (ptLenHours opts) req st" and h: "h < H"
  from reachable_deficit [OF assms r] h
  show "deficit st ! h = max 0 (req ! h - (covFT st ! h + covPT st ! h))" by simp
  then show "0 \<le> deficit st ! h" by simp
next
  show r: "reachable L (ptLenHours opts) req (final_state req L opts)" by (rule final_reachable)
  have len: "length (deficit (final_state req L opts)) = H"
    using reachable_lengths [OF r] assms(1) by simp
  show "shortage (buildShiftPlanStrategic req L opts) = deficit (final_state req L opts)"
    using reachable_deficit [OF assms r] len
    by (intro nth_equalityI) (simp_all add: plan_fields)
qed

lemma while_either_iters: "fst (while_either f L PT n st) \<le> n + room_left L st + 1"
proof (induction f L PT n st rule: while_either.induct)
  case (1 ftFirst L PT n st)
  let ?r1 = "place_first ftFirst L PT st"
  let ?r2 = "place_second ftFirst L PT (snd ?r1)"
  show ?case
  proof (cases "fst ?r1")
    case True
    from "1.IH"(1) [OF refl True]
    have "fst (while_either ftFirst L PT (n + 1) (snd ?r1)) \<le> n + 1 + room_left L (snd ?r1) + 1" .
    moreover from place_first_room [OF True] have "room_left L (snd ?r1) < room_left L st" .
    ultimately show ?thesis
      using True by (subst while_either.simps) (simp add: Let_def)
  next
    case False
    then have same: "snd ?r1 = st" by (rule place_first_fail)
    show ?thesis
    proof (cases "fst ?r2")
      case True
      from "1.IH"(2) [OF refl False refl True]
      have "fst (while_either ftFirst L PT (n + 1) (snd ?r2)) \<le> n + 1 + room_left L (snd ?r2) + 1" .
      moreover from place_second_room [OF True] same
      have "room_left L (snd ?r2) < room_left L st" by simp
      ultimately show ?thesis
        using True False by (subst while_either.simps) (simp add: Let_def)
    next
      case r2: False
      with False show ?thesis by (subst while_either.simps) (simp add: Let_def)
    qed
  qed
qed

lemma mixed_loop_iters: "fst (mixed_loop L PT t n ft pt st) \<le> n + room_left L st + 1"
proof (induction L PT t n ft pt st rule: mixed_loop.induct)
  case (1 L PT target n ft pt st)
  show ?case
  proof (cases "share_below ft pt target")
    case below: True
    let ?r1 = "placeOneFT L st"
    let ?r2 = "placeOnePT L PT (snd ?r1)"
    show ?thesis
    proof (cases "fst ?r1 \<or> fst ?r2")
      case True
      from "1.IH"(1) [OF below refl refl True]
      have "fst (mixed_loop L PT target (n + 1) (if fst ?r1 then ft + 1 else ft)
               (if fst ?r2 then pt + 1 else pt) (snd ?r2)) \<le> n + 1 + room_left L (snd ?r2) + 1" .
      moreover have "room_left L (snd ?r2) < room_left L st"
        using True placeOneFT_room [of L st] placeOneFT_room_le [of L st]
          placeOnePT_room [of L PT "snd ?r1"] placeOnePT_room_le [of L PT "snd ?r1"]
        by linarith
      ultimately show ?thesis
        using True below by (subst mixed_loop.simps) (simp add: Let_def)
    next
      case False
      with below show ?thesis by (subst mixed_loop.simps) (simp add: Let_def)
    qed
  next
    case above: False
    let ?r1 = "placeOnePT L PT st"
    let ?r2 = "placeOneFT L (snd ?r1)"
    show ?thesis
    proof (cases "fst ?r1 \<or> fst ?r2")
      case True
      from "1.IH"(2) [OF above refl refl True]
      have "fst (mixed_loop L PT target (n + 1) (if fst ?r2 then ft + 1 else ft)
               (if fst ?r1 then pt + 1 else pt) (snd ?r2)) \<le> n + 1 + room_left L (snd ?r2) + 1" .
      moreover have "room_left L (snd ?r2) < room_left L st"
        using True placeOnePT_room [of L PT st] placeOnePT_room_le [of L PT st]
          placeOneFT_room [of L "snd ?r1"] placeOneFT_room_le [of L "snd ?r1"]
        by linarith
      ultimately show ?thesis
        using True above by (subst mixed_loop.simps) (simp add: Let_def)
    next
      case False
      with above show ?thesis by (subst mixed_loop.simps) (simp add: Let_def)
    qed
  qed
qed

lemma while_either_exit:
  "\<not> fst (placeOneFT L (snd (while_either f L PT n st))) \<and>
   \<not> fst (placeOnePT L PT (snd (while_either f L PT n st)))"
proof (induction f L PT n st rule: while_either.induct)
  case (1 ftFirst L PT n st)
  let ?r1 = "place_first ftFirst L PT st"
  let ?r2 = "place_second ftFirst L PT (snd ?r1)"
  show ?case
  proof (cases "fst ?r1")
    case True
    from "1.IH"(1) [OF refl True] True show ?thesis
      by (subst (1 2) while_either.simps) (simp add: Let_def)
  next
    case False
    then have same: "snd ?r1 = st" by (rule place_first_fail)
    show ?thesis
    proof (cases "fst ?r2")
      case True
      from "1.IH"(2) [OF refl False refl True] True False show ?thesis
        by (subst (1 2) while_either.simps) (simp add: Let_def)
    next
      case r2: False
      then have "snd ?r2 = st" using place_second_fail [of ftFirst L PT st] same by simp
      moreover from False r2 same
      have "\<not> fst (placeOneFT L st) \<and> \<not> fst (placeOnePT L PT st)"
        by (cases ftFirst) (simp_all add: place_first_def place_second_def)
      ultimately show ?thesis
        using False r2 by (subst (1 2) while_either.simps) (simp add: Let_def)
    qed
  qed
qed

lemma mixed_loop_exit:
  "\<not> fst (placeOneFT L (snd (mixed_loop L PT t n ft pt st))) \<and>
   \<not> fst (placeOnePT L PT (snd (mixed_loop L PT t n ft pt st)))"
proof (induction L PT t n ft pt st rule: mixed_loop.induct)
  case (1 L PT target n ft pt st)
  show ?case
  proof (cases "share_below ft pt target")
    case below: True
    let ?r1 = "placeOneFT L st"
    let ?r2 = "placeOnePT L PT (snd ?r1)"
    show ?thesis
    proof (cases "fst ?r1 \<or> fst ?r2")
      case True
      from "1.IH"(1) [OF below refl refl True] True below show ?thesis
        by (subst (1 2) mixed_loop.simps) (simp add: Let_def)
    next
      case False
      then have "snd ?r1 = st" "snd ?r2 = st"
        using placeOneFT_fail [of L st] placeOnePT_fail [of L PT "snd ?r1"] by simp_all
      with False below show ?thesis
        by (subst (1 2) mixed_loop.simps) (simp add: Let_def)
    qed
  next
    case above: False
    let ?r1 = "placeOnePT L PT st"
    let ?r2 = "placeOneFT L (snd ?r1)"
    show ?thesis
    proof (cases "fst ?r1 \<or> fst ?r2")
      case True
      from "1.IH"(2) [OF above refl refl True] True above show ?thesis
        by (subst (1 2) mixed_loop.simps) (simp add: Let_def)
    next
      case False
      then have "snd ?r1 = st" "snd ?r2 = st"
        using placeOnePT_fail [of L PT st] placeOneFT_fail [of L "snd ?r1"] by simp_all
      with False above show ?thesis
        by (subst (1 2) mixed_loop.simps) (simp add: Let_def)
    qed
  qed
qed

lemma placeLoop_exit:
  "\<not> fst (placeOneFT L (snd (placeLoop L opts st))) \<and>
   \<not> fst (placeOnePT L (ptLenHours opts) (snd (placeLoop L opts st)))"
  by (simp add: placeLoop_def while_either_exit mixed_loop_exit)

text \<open>
  Claim C8 (termination bound).  \<open>while_either\<close> and \<open>mixed_loop\<close> are total: their
  termination proofs show that every round that continues the loop has placed a shift
  and so used up \<open>room_left\<close>, which is \<open>maxFTShifts + maxPTShifts\<close> at the start.  With
  non-negative total limits, under every strategy the loop makes at most
  \<open>maxFTShifts + maxPTShifts + 2\<close> rounds, and it ends in a state in which neither
  placement succeeds.
\<close>

theorem placeLoop_iterations:
  assumes "length req = H" "0 \<le> maxFTShifts L" "0 \<le> maxPTShifts L"
  shows "int (fst (placeLoop L opts (init_state req))) \<le> maxFTShifts L + maxPTShifts L + 2 \<and>
         \<not> fst (placeOneFT L (final_state req L opts)) \<and>
         \<not> fst (placeOnePT L (ptLenHours opts) (final_state req L opts))"
proof -
  let ?s0 = "init_state req"
  have room: "room_left L ?s0 = nat (maxFTShifts L) + nat (maxPTShifts L)"
    by (simp add: room_left_def init_state_def)
  have w: "fst (while_either f L (ptLenHours opts) 0 ?s0) \<le> room_left L ?s0 + 1" for f
    using while_either_iters [of f L "ptLenHours opts" 0 ?s0] by simp
  have m: "fst (mixed_loop L (ptLenHours opts) (mixed_target (mixedFtPercent opts)) 0 0 0 ?s0)
             \<le> room_left L ?s0 + 1"
    using mixed_loop_iters [of L "ptLenHours opts" _ 0 0 0 ?s0] by simp
  have "fst (placeLoop L opts ?s0) \<le> room_left L ?s0 + 1"
    unfolding placeLoop_def using w m by (simp del: One_nat_def add_Suc_right)
  with room assms(2,3)
  have "int (fst (placeLoop L opts ?s0)) \<le> maxFTShifts L + maxPTShifts L + 2" by linarith
  with placeLoop_exit [of L opts ?s0] show ?thesis by (simp add: final_state_def)
qed

section \<open>Scenario A of the specification, evaluated\<close>

definition scenarioA_required :: "int list" where
  "scenarioA_required = [0, 0, 0, 0, 0, 0, 0, 0, 5, 0, 0, 0, 0, 0, 0, 0, 0, 0, 0, 0, 0, 0, 0, 0]"

definition scenarioA_limits :: capacity_limits where
  "scenarioA_limits = \<lparr> capFT = 5, capPT = 0, maxFTShifts = 5, maxPTShifts = 0 \<rparr>"

definition scenarioA_opts :: plan_opts where
  "scenarioA_opts = \<lparr> strategy = ''ft_first'', mixedFtPercent = Some 60, isWeekend = False, ptLenHours = 4 \<rparr>"

lemma scenarioA_final:
  "placeLoop scenarioA_limits scenarioA_opts (init_state scenarioA_required) =
     (6, \<lparr> deficit = [0, 0, 0, 0, 0, 0, 0, 0, 0, 0, 0, 0, 0, 0, 0, 0, 0, 0, 0, 0, 0, 0, 0, 0],
           covFT = [0, 5, 5, 5, 5, 5, 5, 5, 5, 0, 0, 0, 0, 0, 0, 0, 0, 0, 0, 0, 0, 0, 0, 0],
           covPT = [0, 0, 0, 0, 0, 0, 0, 0, 0, 0, 0, 0, 0, 0, 0, 0, 0, 0, 0, 0, 0, 0, 0, 0],
           placedFT = 5, placedPT = 0,
           shiftsFT = replicate 5 \<lparr> w_start = 1, w_end = 9, w_count = 1 \<rparr>, shiftsPT = [] \<rparr>)"
  by code_simp

lemma scenarioA_plan:
  "buildShiftPlanStrategic scenarioA_required scenarioA_limits scenarioA_opts =
     \<lparr> plan_shiftsFT = [\<lparr> w_start = 1, w_end = 9, w_count = 5 \<rparr>], plan_shiftsPT = [],
       coverage = [0, 5, 5, 5, 5, 5, 5, 5, 5, 0, 0, 0, 0, 0, 0, 0, 0, 0, 0, 0, 0, 0, 0, 0],
       required = scenarioA_required,
       shortage = [0, 0, 0, 0, 0, 0, 0, 0, 0, 0, 0, 0, 0, 0, 0, 0, 0, 0, 0, 0, 0, 0, 0, 0],
       excess = [0, 5, 5, 5, 5, 5, 5, 5, 0, 0, 0, 0, 0, 0, 0, 0, 0, 0, 0, 0, 0, 0, 0, 0],
       maxConcurrent = 5, limits = scenarioA_limits, hoursShort = 0, totalShortUnits = 0 \<rparr>"
  by code_simp


lemma scenarioA_hyps:
  "length scenarioA_required = H" "\<forall>h<H. 0 \<le> scenarioA_required ! h"
  "0 \<le> capFT scenarioA_limits" "0 \<le> capPT scenarioA_limits"
  "0 \<le> maxFTShifts scenarioA_limits" "0 \<le> maxPTShifts scenarioA_limits"
proof -
  show len: "length scenarioA_required = H" by (simp add: scenarioA_required_def)
  have "list_all (\<lambda>v. 0 \<le> v) scenarioA_required" by (simp add: scenarioA_required_def)
  then show "\<forall>h<H. 0 \<le> scenarioA_required ! h" using len by (simp add: list_all_length)
qed (simp_all add: scenarioA_limits_def)

theorem cap_invariant_witness:
  "length scenarioA_required = H \<and> 0 \<le> capFT scenarioA_limits \<and> 0 \<le> capPT scenarioA_limits \<and>
   covFT (final_state scenarioA_required scenarioA_limits scenarioA_opts) ! 8 \<le> capFT scenarioA_limits \<and>
   covPT (final_state scenarioA_required scenarioA_limits scenarioA_opts) ! 8 \<le> capPT scenarioA_limits \<and>
   window_cov (plan_shiftsFT (buildShiftPlanStrategic scenarioA_required scenarioA_limits scenarioA_opts)) 8
     \<le> capFT scenarioA_limits \<and>
   window_cov (plan_shiftsPT (buildShiftPlanStrategic scenarioA_required scenarioA_limits scenarioA_opts)) 8
     \<le> capPT scenarioA_limits \<and>
   window_cov (plan_shiftsFT (buildShiftPlanStrategic scenarioA_required scenarioA_limits scenarioA_opts)) 8 = 5"
proof -
  from cap_invariant [OF scenarioA_hyps(1,3,4), of scenarioA_opts]
  have "covFT (final_state scenarioA_required scenarioA_limits scenarioA_opts) ! 8 \<le> capFT scenarioA_limits \<and>
   covPT (final_state scenarioA_required scenarioA_limits scenarioA_opts) ! 8 \<le> capPT scenarioA_limits \<and>
   window_cov (plan_shiftsFT (buildShiftPlanStrategic scenarioA_required scenarioA_limits scenarioA_opts)) 8
     \<le> capFT scenarioA_limits \<and>
   window_cov (plan_shiftsPT (buildShiftPlanStrategic scenarioA_required scenarioA_limits scenarioA_opts)) 8
     \<le> capPT scenarioA_limits"
    by simp
  moreover have "window_cov (plan_shiftsFT (buildShiftPlanStrategic scenarioA_required scenarioA_limits scenarioA_opts)) 8 = 5"
    by (simp add: scenarioA_plan window_cov_def)
  ultimately show ?thesis using scenarioA_hyps by simp
qed

theorem headcount_invariant_witness:
  "length scenarioA_required = H \<and> 0 \<le> maxFTShifts scenarioA_limits \<and> 0 \<le> maxPTShifts scenarioA_limits \<and>
   total_count (plan_shiftsFT (buildShiftPlanStrategic scenarioA_required scenarioA_limits scenarioA_opts))
     \<le> maxFTShifts scenarioA_limits \<and>
   total_count (plan_shiftsPT (buildShiftPlanStrategic scenarioA_required scenarioA_limits scenarioA_opts))
     \<le> maxPTShifts scenarioA_limits \<and>
   total_count (plan_shiftsFT (buildShiftPlanStrategic scenarioA_required scenarioA_limits scenarioA_opts)) = 5"
proof -
  have "total_count (plan_shiftsFT (buildShiftPlanStrategic scenarioA_required scenarioA_limits scenarioA_opts)) = 5"
    by (simp add: scenarioA_plan total_count_def)
  with headcount_invariant [OF scenarioA_hyps(1,5,6), of scenarioA_opts] scenarioA_hyps
  show ?thesis by simp
qed

theorem plan_consistent_witness:
  "length scenarioA_required = H \<and>
   coverage (buildShiftPlanStrategic scenarioA_required scenarioA_limits scenarioA_opts) ! 8 =
     window_cov (plan_shiftsFT (buildShiftPlanStrategic scenarioA_required scenarioA_limits scenarioA_opts)) 8 +
     window_cov (plan_shiftsPT (buildShiftPlanStrategic scenarioA_required scenarioA_limits scenarioA_opts)) 8 \<and>
   shortage (buildShiftPlanStrategic scenarioA_required scenarioA_limits scenarioA_opts) ! 8 =
     max 0 (required (buildShiftPlanStrategic scenarioA_required scenarioA_limits scenarioA_opts) ! 8 -
            coverage (buildShiftPlanStrategic scenarioA_required scenarioA_limits scenarioA_opts) ! 8) \<and>
   excess (buildShiftPlanStrategic scenarioA_required scenarioA_limits scenarioA_opts) ! 1 =
     max 0 (coverage (buildShiftPlanStrategic scenarioA_required scenarioA_limits scenarioA_opts) ! 1 -
            required (buildShiftPlanStrategic scenarioA_required scenarioA_limits scenarioA_opts) ! 1) \<and>
   coverage (buildShiftPlanStrategic scenarioA_required scenarioA_limits scenarioA_opts) ! 8 = 5 \<and>
   excess (buildShiftPlanStrategic scenarioA_required scenarioA_limits scenarioA_opts) ! 1 = 5"
proof -
  have "coverage (buildShiftPlanStrategic scenarioA_required scenarioA_limits scenarioA_opts) ! 8 = 5"
    "excess (buildShiftPlanStrategic scenarioA_required scenarioA_limits scenarioA_opts) ! 1 = 5"
    by (simp_all add: scenarioA_plan)
  with plan_consistent [OF scenarioA_hyps(1), of scenarioA_limits scenarioA_opts] scenarioA_hyps(1)
  show ?thesis by simp
qed

theorem deficit_invariant_witness:
  "length scenarioA_required = H \<and> list_all (\<lambda>v. 0 \<le> v) scenarioA_required \<and>
   reachable scenarioA_limits (ptLenHours scenarioA_opts) scenarioA_required
     (final_state scenarioA_required scenarioA_limits scenarioA_opts) \<and>
   deficit (final_state scenarioA_required scenarioA_limits scenarioA_opts) ! 8 =
     max 0 (scenarioA_required ! 8 -
       (covFT (final_state scenarioA_required scenarioA_limits scenarioA_opts) ! 8 +
        covPT (final_state scenarioA_required scenarioA_limits scenarioA_opts) ! 8)) \<and>
   shortage (buildShiftPlanStrategic scenarioA_required scenarioA_limits scenarioA_opts) =
     deficit (final_state scenarioA_required scenarioA_limits scenarioA_opts) \<and>
   covFT (final_state scenarioA_required scenarioA_limits scenarioA_opts) ! 8 = 5"
proof -
  note d = deficit_invariant [OF scenarioA_hyps(1,2), of scenarioA_limits scenarioA_opts]
  from d have r: "reachable scenarioA_limits (ptLenHours scenarioA_opts) scenarioA_required
     (final_state scenarioA_required scenarioA_limits scenarioA_opts)" by simp
  from d r have "deficit (final_state scenarioA_required scenarioA_limits scenarioA_opts) ! 8 =
     max 0 (scenarioA_required ! 8 -
       (covFT (final_state scenarioA_required scenarioA_limits scenarioA_opts) ! 8 +
        covPT (final_state scenarioA_required scenarioA_limits scenarioA_opts) ! 8))" by simp
  moreover have "covFT (final_state scenarioA_required scenarioA_limits scenarioA_opts) ! 8 = 5"
    by (simp add: final_state_def scenarioA_final)
  moreover have "list_all (\<lambda>v. 0 \<le> v) scenarioA_required" by (simp add: scenarioA_required_def)
  ultimately show ?thesis using d r scenarioA_hyps(1) by simp
qed

theorem placeLoop_iterations_witness:
  "length scenarioA_required = H \<and> 0 \<le> maxFTShifts scenarioA_limits \<and> 0 \<le> maxPTShifts scenarioA_limits \<and>
   int (fst (placeLoop scenarioA_limits scenarioA_opts (init_state scenarioA_required)))
     \<le> maxFTShifts scenarioA_limits + maxPTShifts scenarioA_limits + 2 \<and>
   fst (placeLoop scenarioA_limits scenarioA_opts (init_state scenarioA_required)) = 6 \<and>
   \<not> fst (placeOneFT scenarioA_limits (final_state scenarioA_required scenarioA_limits scenarioA_opts))"
  using placeLoop_iterations [OF scenarioA_hyps(1,5,6), of scenarioA_opts] scenarioA_hyps
  by (simp add: scenarioA_final)

section \<open>Orchestrator: the resolved limits\<close>

text \<open>
  The limits that \<open>aggregates\<close> resolves from the text of the four input fields;
  \<open>peakStaff\<close> is the greatest entry of the integer requirement vector.
\<close>

definition aggregates_capFt :: "string \<Rightarrow> nat \<Rightarrow> int option" where
  "aggregates_capFt capFT_text peakStaff =
     map_option (max 0) (js_parseInt (js_or capFT_text (string_of_nat peakStaff)))"

definition aggregates_capPt :: "string \<Rightarrow> int option" where
  "aggregates_capPt capPT_text = map_option (max 0) (js_parseInt (js_or capPT_text ''0''))"

definition aggregates_maxFTShifts :: "string \<Rightarrow> string \<Rightarrow> nat \<Rightarrow> int option" where
  "aggregates_maxFTShifts totalFT_text capFT_text peakStaff =
     map_option (max 0)
       (js_parseInt (js_or (js_or totalFT_text capFT_text) (string_of_nat peakStaff)))"

definition aggregates_maxPTShifts :: "string \<Rightarrow> string \<Rightarrow> int option" where
  "aggregates_maxPTShifts totalPT_text capPT_text =
     map_option (max 0) (js_parseInt (js_or (js_or totalPT_text capPT_text) ''0''))"

lemma of_char_digit: "k < 10 \<Longrightarrow> (of_char (char_of (48 + k :: nat)) :: nat) = 48 + k"
  by simp

lemma string_of_nat_digits: "\<forall>c \<in> set (string_of_nat n). is_digit c"
proof (induction n rule: string_of_nat.induct)
  case (1 n)
  show ?case
  proof (cases "n < 10")
    case True
    then show ?thesis by (subst string_of_nat.simps) (simp add: is_digit_def)
  next
    case False
    have "n mod 10 < 10" by simp
    then have "is_digit (char_of (48 + n mod 10))" 
      unfolding is_digit_def by (subst of_char_digit) simp_all
    with False "1.IH" show ?thesis by (subst string_of_nat.simps) simp
  qed
qed

lemma string_of_nat_nonempty: "string_of_nat n \<noteq> []"
  by (subst string_of_nat.simps) simp

lemma string_of_nat_value: "foldl (\<lambda>a c. 10 * a + digit_val c) 0 (string_of_nat n) = n"
proof (induction n rule: string_of_nat.induct)
  case (1 n)
  show ?case
  proof (cases "n < 10")
    case True
    then show ?thesis by (subst string_of_nat.simps) (simp add: digit_val_def)
  next
    case False
    have "n mod 10 < 10" by simp
    then have "digit_val (char_of (48 + n mod 10)) = n mod 10"
      unfolding digit_val_def by (subst of_char_digit) simp_all
    with False "1.IH" show ?thesis by (subst string_of_nat.simps) simp
  qed
qed

lemma digit_plain: "is_digit c \<Longrightarrow> \<not> is_ws c \<and> c \<noteq> CHR ''-'' \<and> c \<noteq> CHR ''+''"
  by (auto simp: is_digit_def is_ws_def)

lemma js_parseInt_digits:
  assumes "ds \<noteq> []" "\<forall>c \<in> set ds. is_digit c"
  shows "js_parseInt ds = Some (int (foldl (\<lambda>a c. 10 * a + digit_val c) 0 ds))"
proof -
  from assms obtain c r where ds: "ds = c # r" by (cases ds) auto
  with assms(2) have c: "is_digit c" by simp
  have tw: "takeWhile is_digit ds = ds" using assms(2) by (simp add: takeWhile_eq_all_conv)
  from digit_plain [OF c] have dw: "dropWhile is_ws ds = ds" by (simp add: ds)
  show ?thesis
    using digit_plain [OF c] tw assms(1)
    unfolding js_parseInt_def dw Let_def by (simp add: ds)
qed

lemma js_parseInt_string_of_nat: "js_parseInt (string_of_nat n) = Some (int n)"
  using js_parseInt_digits [OF string_of_nat_nonempty string_of_nat_digits, of n]
  by (simp add: string_of_nat_value)

lemma js_parseInt_zero: "js_parseInt ''0'' = Some 0"
  by code_simp

text \<open>
  Claim C5 (total limits).  With the total field left blank, \<open>maxFTShifts\<close> is the
  resolved \<open>capFt\<close> and \<open>maxPTShifts\<close> the resolved \<open>capPt\<close>; with the decimal text of a
  non-negative integer \<open>n\<close> in the total field, zero included, the resolved limit is \<open>n\<close>.
\<close>

theorem total_limits_resolved:
  "aggregates_maxFTShifts [] capFT_text peakStaff = aggregates_capFt capFT_text peakStaff \<and>
   aggregates_maxPTShifts [] capPT_text = aggregates_capPt capPT_text \<and>
   aggregates_maxFTShifts (string_of_nat n) capFT_text peakStaff = Some (int n) \<and>
   aggregates_maxPTShifts (string_of_nat n) capPT_text = Some (int n) \<and>
   aggregates_maxFTShifts ''0'' capFT_text peakStaff = Some 0 \<and>
   aggregates_maxPTShifts ''0'' capPT_text = Some 0"
  by (simp add: aggregates_maxFTShifts_def aggregates_maxPTShifts_def aggregates_capFt_def
      aggregates_capPt_def js_or_def string_of_nat_nonempty js_parseInt_string_of_nat
      js_parseInt_zero)

theorem total_limits_resolved_witness:
  "aggregates_maxFTShifts [] ''7'' 9 = aggregates_capFt ''7'' 9 \<and>
   aggregates_maxPTShifts [] [] = aggregates_capPt [] \<and>
   aggregates_maxFTShifts (string_of_nat 3) ''7'' 9 = Some 3 \<and>
   aggregates_maxPTShifts (string_of_nat 0) ''2'' = Some 0"
  using total_limits_resolved [of "''7''" 9 "[]" 3] total_limits_resolved [of "''7''" 9 "''2''" 0]
  by simp

section \<open>Hire recommendations: what is returned\<close>

lemma foldl_max_Max:
  "xs \<noteq> [] \<Longrightarrow> \<forall>v \<in> set xs. (0::int) \<le> v \<Longrightarrow> foldl max 0 xs = Max (set xs)"
proof -
  have gen: "foldl max a xs = Max (insert a (set xs))" for a :: int and xs
  proof (induction xs arbitrary: a)
    case Nil
    show ?case by simp
  next
    case (Cons x xs)
    have "Max (insert (max a x) (set xs)) = Max (insert a (insert x (set xs)))"
      by (cases "set xs = {}") (simp_all add: max.assoc Max_insert)
    with Cons show ?case by simp
  qed
  assume ne: "xs \<noteq> []" and nn: "\<forall>v \<in> set xs. (0::int) \<le> v"
  from ne obtain x where x: "x \<in> set xs" by (cases xs) auto
  then have "x \<le> Max (set xs)" by simp
  moreover from nn x have "0 \<le> x" by blast
  ultimately have "0 \<le> Max (set xs)" by linarith
  with ne show ?thesis by (simp add: gen max_def)
qed

lemma ceilDiv_real: "ceilDiv a b = \<lceil>real_of_int a / real_of_int b\<rceil>"
  by (simp add: ceilDiv_def ceiling_divide_eq_div)

lemma floor8_real: "\<lfloor>(of_int a :: rat) / 8\<rfloor> = \<lfloor>real_of_int a / 8\<rfloor>"
proof -
  have "\<lfloor>(of_int a :: rat) / of_int 8\<rfloor> = \<lfloor>real_of_int a / of_int 8\<rfloor>"
    by (simp only: floor_divide_of_int_eq)
  then show ?thesis by simp
qed

lemma foldl_add_sum_list: "foldl (\<lambda>s v. s + v) z xs = z + sum_list (xs :: int list)"
  by (induction xs arbitrary: z) simp_all

lemma planner_shortage:
  "length (shortage (buildShiftPlanStrategic req L opts)) = H \<and>
   totalShortUnits (buildShiftPlanStrategic req L opts) =
     sum_list (shortage (buildShiftPlanStrategic req L opts)) \<and>
   (\<forall>v \<in> set (shortage (buildShiftPlanStrategic req L opts)). 0 \<le> v)"
proof -
  have "length (shortage (buildShiftPlanStrategic req L opts)) = H"
    and "\<forall>v \<in> set (shortage (buildShiftPlanStrategic req L opts)). 0 \<le> v"
    by (auto simp: plan_fields)
  moreover have "totalShortUnits (buildShiftPlanStrategic req L opts) =
     sum_list (shortage (buildShiftPlanStrategic req L opts))"
    by (simp add: buildShiftPlanStrategic_def Let_def foldl_add_sum_list)
  ultimately show ?thesis by blast
qed

text \<open>
  Claim C6, amended.  \<open>computeHireRecommendations\<close> returns nothing exactly when the
  plan is missing or its shortage vector is empty (not when the shortage is zero
  everywhere); for a plan of the planner, whose shortage vector has 24 entries, it
  always returns a recommendation.  When it returns a recommendation for a plan whose
  \<open>totalShortUnits\<close> is the sum of its non-negative shortage entries, as in every plan
  of the planner, and the part-time length is positive: \<open>totalShort\<close> is the sum of the
  shortage vector, \<open>peakShort\<close> its maximum, \<open>minFT8 = max(ceil(totalShort/8), peakShort)\<close>,
  \<open>minPTcur\<close>, \<open>minPT4\<close>, \<open>minPT6\<close> are \<open>ceil(totalShort/length)\<close> for the active, the
  4-hour and the 6-hour length, and \<open>mixed\<close> is \<open>ft = max(peakShort, floor(totalShort/8))\<close>
  with \<open>pt = ceil(max(0, totalShort - ft*8) / ptLenHours)\<close>.
\<close>

theorem hire_recommendations_amended:
  "computeHireRecommendations None ptLen = None \<and>
   (computeHireRecommendations (Some p) ptLen = None \<longleftrightarrow> shortage p = []) \<and>
   computeHireRecommendations (Some (buildShiftPlanStrategic req L opts)) ptLen \<noteq> None \<and>
   totalShortUnits (buildShiftPlanStrategic req L opts) =
     sum_list (shortage (buildShiftPlanStrategic req L opts)) \<and>
   (\<forall>v \<in> set (shortage (buildShiftPlanStrategic req L opts)). 0 \<le> v) \<and>
   (0 < ptLen \<longrightarrow> totalShortUnits p = sum_list (shortage p) \<longrightarrow> (\<forall>v \<in> set (shortage p). 0 \<le> v) \<longrightarrow>
    computeHireRecommendations (Some p) ptLen = Some r \<longrightarrow>
      totalShort r = sum_list (shortage p) \<and>
      peakShort r = Max (set (shortage p)) \<and>
      minFT8 r = max \<lceil>real_of_int (totalShort r) / 8\<rceil> (peakShort r) \<and>
      minPTcur r = \<lceil>real_of_int (totalShort r) / real_of_int ptLen\<rceil> \<and>
      minPT4 r = \<lceil>real_of_int (totalShort r) / 4\<rceil> \<and>
      minPT6 r = \<lceil>real_of_int (totalShort r) / 6\<rceil> \<and>
      mixed_ft r = max (peakShort r) \<lfloor>real_of_int (totalShort r) / 8\<rfloor> \<and>
      mixed_pt r = \<lceil>real_of_int (max 0 (totalShort r - mixed_ft r * 8)) / real_of_int ptLen\<rceil> \<and>
      mixed_ptLenHours r = ptLen)"
proof (intro conjI impI)
  show "computeHireRecommendations None ptLen = None"
    by (simp add: computeHireRecommendations_def)
  show "computeHireRecommendations (Some p) ptLen = None \<longleftrightarrow> shortage p = []"
    by (simp add: computeHireRecommendations_def Let_def)
  show "computeHireRecommendations (Some (buildShiftPlanStrategic req L opts)) ptLen \<noteq> None"
    using planner_shortage [of req L opts] by (simp add: computeHireRecommendations_def Let_def)
  show "totalShortUnits (buildShiftPlanStrategic req L opts) =
     sum_list (shortage (buildShiftPlanStrategic req L opts))"
    using planner_shortage [of req L opts] by blast
  show "\<forall>v \<in> set (shortage (buildShiftPlanStrategic req L opts)). 0 \<le> v"
    using planner_shortage [of req L opts] by blast
next
  assume pos: "0 < ptLen" and tot: "totalShortUnits p = sum_list (shortage p)"
    and nn: "\<forall>v \<in> set (shortage p). 0 \<le> v"
    and some: "computeHireRecommendations (Some p) ptLen = Some r"
  from some have ne: "shortage p \<noteq> []"
    by (auto simp: computeHireRecommendations_def split: if_splits)
  let ?tS = "totalShortUnits p" and ?pk = "foldl max 0 (shortage p)"
  let ?mixFT = "max ?pk \<lfloor>(of_int ?tS :: rat) / 8\<rfloor>"
  from some ne have r: "r = \<lparr> totalShort = ?tS, peakShort = ?pk,
      minFT8 = max (ceilDiv ?tS 8) ?pk, minPTcur = ceilDiv ?tS ptLen,
      minPT4 = ceilDiv ?tS 4, minPT6 = ceilDiv ?tS 6, mixed_ft = ?mixFT,
      mixed_pt = ceilDiv (max 0 (?tS - ?mixFT * 8)) ptLen, mixed_ptLenHours = ptLen \<rparr>"
    by (simp add: computeHireRecommendations_def Let_def)
  show "totalShort r = sum_list (shortage p)" by (simp add: r tot)
  show "peakShort r = Max (set (shortage p))" by (simp add: r foldl_max_Max [OF ne nn])
  show "minFT8 r = max \<lceil>real_of_int (totalShort r) / 8\<rceil> (peakShort r)"
    using ceilDiv_real [of ?tS 8] by (simp add: r)
  show "minPTcur r = \<lceil>real_of_int (totalShort r) / real_of_int ptLen\<rceil>"
    by (simp add: r ceilDiv_real)
  show "minPT4 r = \<lceil>real_of_int (totalShort r) / 4\<rceil>"
    using ceilDiv_real [of ?tS 4] by (simp add: r)
  show "minPT6 r = \<lceil>real_of_int (totalShort r) / 6\<rceil>"
    using ceilDiv_real [of ?tS 6] by (simp add: r)
  show "mixed_ft r = max (peakShort r) \<lfloor>real_of_int (totalShort r) / 8\<rfloor>"
    by (simp add: r floor8_real)
  show "mixed_pt r = \<lceil>real_of_int (max 0 (totalShort r - mixed_ft r * 8)) / real_of_int ptLen\<rceil>"
    by (simp add: r ceilDiv_real)
  show "mixed_ptLenHours r = ptLen" by (simp add: r)
qed

section \<open>Roster: the lunch window\<close>

text \<open>
  The lunch window as the specification words it, without the clamps: the midpoint of
  the shift minus half the lunch, snapped to 30 minutes, and that plus the lunch.
\<close>

definition spec_lunch :: "int \<Rightarrow> int \<Rightarrow> int \<Rightarrow> rat \<times> rat" where
  "spec_lunch start end d =
     (let mid = of_int (start * 60) + of_int ((end - start) * 60) / 2;
          ls = snap30 (mid - of_int d / 2)
      in (ls, ls + of_int d))"

text \<open>The lunch window with both ends clamped into the shift, as \<open>add\<close> stores it.\<close>

definition clamped_lunch :: "int \<Rightarrow> int \<Rightarrow> int \<Rightarrow> rat \<times> rat" where
  "clamped_lunch start end d =
     (max (of_int (start * 60)) (fst (spec_lunch start end d)),
      min (of_int (end * 60)) (snd (spec_lunch start end d)))"

lemma add_fst:
  assumes "js_parseInt (js_or L ''30'') = Some n"
  shows "\<exists>ag. fst (add type s en L rs) =
           fst rs @ [\<lparr> r_agent = ag, r_type = type, r_start = s, r_end = en, r_hours = en - s,
                      lunchStart = Some (fst (clamped_lunch s en (max 0 n))),
                      lunchEnd = Some (snd (clamped_lunch s en (max 0 n))) \<rparr>]"
  using assms
  by (cases rs) (simp add: add_def Let_def clamped_lunch_def spec_lunch_def diff_divide_distrib)

lemma add_entries:
  assumes "js_parseInt (js_or L ''30'') = Some n"
    and "e \<in> set (fst (add type s en L rs))"
  shows "e \<in> set (fst rs) \<or>
         (r_start e = s \<and> r_end e = en \<and> r_hours e = en - s \<and>
          lunchStart e = Some (fst (clamped_lunch s en (max 0 n))) \<and>
          lunchEnd e = Some (snd (clamped_lunch s en (max 0 n))))"
proof -
  from add_fst [OF assms(1), of type s en rs] obtain ag where
    "fst (add type s en L rs) =
           fst rs @ [\<lparr> r_agent = ag, r_type = type, r_start = s, r_end = en, r_hours = en - s,
                      lunchStart = Some (fst (clamped_lunch s en (max 0 n))),
                      lunchEnd = Some (snd (clamped_lunch s en (max 0 n))) \<rparr>]" by blast
  with assms(2) show ?thesis by auto
qed

lemma add_funpow_entries:
  assumes "js_parseInt (js_or L ''30'') = Some n"
  shows "e \<in> set (fst (((add type s en L) ^^ k) rs)) \<Longrightarrow>
         e \<in> set (fst rs) \<or>
         (r_start e = s \<and> r_end e = en \<and> r_hours e = en - s \<and>
          lunchStart e = Some (fst (clamped_lunch s en (max 0 n))) \<and>
          lunchEnd e = Some (snd (clamped_lunch s en (max 0 n))))"
proof (induction k)
  case 0
  then show ?case by simp
next
  case (Suc k)
  from Suc.prems have "e \<in> set (fst (add type s en L (((add type s en L) ^^ k) rs)))" by simp
  from add_entries [OF assms this] Suc.IH show ?case by blast
qed

lemma foldl_add_window_entries:
  assumes "js_parseInt (js_or L ''30'') = Some n"
  shows "e \<in> set (fst (foldl (add_window type L) rs ws)) \<Longrightarrow>
         e \<in> set (fst rs) \<or>
         (\<exists>w \<in> set ws. r_start e = w_start w \<and> r_end e = w_end w \<and>
            r_hours e = w_end w - w_start w \<and>
            lunchStart e = Some (fst (clamped_lunch (w_start w) (w_end w) (max 0 n))) \<and>
            lunchEnd e = Some (snd (clamped_lunch (w_start w) (w_end w) (max 0 n))))"
proof (induction ws arbitrary: rs)
  case Nil
  then show ?case by simp
next
  case (Cons w ws)
  from Cons.IH [of "add_window type L rs w"] Cons.prems
  have "e \<in> set (fst (add_window type L rs w)) \<or>
         (\<exists>w \<in> set ws. r_start e = w_start w \<and> r_end e = w_end w \<and>
            r_hours e = w_end w - w_start w \<and>
            lunchStart e = Some (fst (clamped_lunch (w_start w) (w_end w) (max 0 n))) \<and>
            lunchEnd e = Some (snd (clamped_lunch (w_start w) (w_end w) (max 0 n))))"
    by simp
  then show ?case
  proof
    assume "e \<in> set (fst (add_window type L rs w))"
    then have "e \<in> set (fst (((add type (w_start w) (w_end w) L) ^^ nat (w_count w)) rs))"
      by (simp add: add_window_def)
    from add_funpow_entries [OF assms this] show ?thesis by auto
  next
    assume "\<exists>w \<in> set ws. r_start e = w_start w \<and> r_end e = w_end w \<and>
            r_hours e = w_end w - w_start w \<and>
            lunchStart e = Some (fst (clamped_lunch (w_start w) (w_end w) (max 0 n))) \<and>
            lunchEnd e = Some (snd (clamped_lunch (w_start w) (w_end w) (max 0 n)))"
    then show ?thesis by auto
  qed
qed

lemma buildRoster_entries:
  assumes "js_parseInt (js_or L ''30'') = Some n"
    and "e \<in> set (buildRoster wsFT wsPT L)"
  shows "\<exists>w \<in> set wsFT \<union> set wsPT. r_start e = w_start w \<and> r_end e = w_end w \<and>
            r_hours e = w_end w - w_start w \<and>
            lunchStart e = Some (fst (clamped_lunch (w_start w) (w_end w) (max 0 n))) \<and>
            lunchEnd e = Some (snd (clamped_lunch (w_start w) (w_end w) (max 0 n)))"
proof -
  from assms(2) have "e \<in> set (fst (foldl (add_window ''PT'' L)
            (foldl (add_window ''FT'' L) ([], 1, 1) wsFT) wsPT))"
    by (simp add: buildRoster_def)
  from foldl_add_window_entries [OF assms(1) this] show ?thesis
  proof
    assume "e \<in> set (fst (foldl (add_window ''FT'' L) ([], 1, 1) wsFT))"
    from foldl_add_window_entries [OF assms(1) this] show ?thesis by auto
  next
    assume "\<exists>w \<in> set wsPT. r_start e = w_start w \<and> r_end e = w_end w \<and>
            r_hours e = w_end w - w_start w \<and>
            lunchStart e = Some (fst (clamped_lunch (w_start w) (w_end w) (max 0 n))) \<and>
            lunchEnd e = Some (snd (clamped_lunch (w_start w) (w_end w) (max 0 n)))"
    then show ?thesis by auto
  qed
qed

lemma snap30_bounds: "x - 15 < snap30 x \<and> snap30 x \<le> x + 15"
proof -
  have "of_int \<lfloor>x / 30 + 1 / 2\<rfloor> \<le> x / 30 + 1 / 2" by (rule of_int_floor_le)
  moreover have "x / 30 + 1 / 2 < of_int \<lfloor>x / 30 + 1 / 2\<rfloor> + 1"
    using floor_correct [of "x / 30 + 1 / 2"] by simp
  ultimately show ?thesis by (simp add: snap30_def js_round_def field_simps)
qed

lemma lunch_snap_bounds:
  fixes s en d :: int
  defines "x \<equiv> (of_int (s * 60) :: rat) + of_int ((en - s) * 60) / 2 - of_int d / 2"
  shows "30 * of_int s + 30 * of_int en - of_int d / 2 - 15 < snap30 x \<and>
         snap30 x \<le> 30 * of_int s + 30 * of_int en - of_int d / 2 + 15"
proof -
  have "x = 30 * of_int s + 30 * of_int en - of_int d / 2"
    by (simp add: x_def algebra_simps diff_divide_distrib)
  with snap30_bounds [of x] show ?thesis by simp
qed

lemma clamped_lunch_unfold:
  "clamped_lunch s en d =
     (max (of_int (s * 60)) (snap30 (of_int (s * 60) + of_int ((en - s) * 60) / 2 - of_int d / 2)),
      min (of_int (en * 60))
        (snap30 (of_int (s * 60) + of_int ((en - s) * 60) / 2 - of_int d / 2) + of_int d))"
  by (simp only: clamped_lunch_def spec_lunch_def Let_def fst_conv snd_conv)

lemma clamped_lunch_within:
  assumes "s < en" "0 \<le> d"
  shows "of_int (s * 60) \<le> fst (clamped_lunch s en d) \<and> fst (clamped_lunch s en d) \<le> of_int (en * 60) \<and>
         of_int (s * 60) \<le> snd (clamped_lunch s en d) \<and> snd (clamped_lunch s en d) \<le> of_int (en * 60)"
proof -
  define ls where "ls = snap30 (of_int (s * 60) + of_int ((en - s) * 60) / 2 - of_int d / 2)"
  have b: "30 * of_int s + 30 * of_int en - of_int d / 2 - 15 < ls"
    "ls \<le> 30 * of_int s + 30 * of_int en - of_int d / 2 + 15"
    using lunch_snap_bounds [of s en d] by (simp_all add: ls_def)
  from assms(1) have "s + 1 \<le> en" by simp
  then have "(of_int (s + 1) :: rat) \<le> of_int en" by (simp only: of_int_le_iff)
  then have se: "(of_int s :: rat) + 1 \<le> of_int en" by simp
  from assms(2) have d: "(0::rat) \<le> of_int d" by simp
  have s60: "(of_int (s * 60) :: rat) = 60 * of_int s" and e60: "(of_int (en * 60) :: rat) = 60 * of_int en"
    by simp_all
  have cl: "clamped_lunch s en d = (max (of_int (s * 60)) ls, min (of_int (en * 60)) (ls + of_int d))"
    by (simp only: clamped_lunch_unfold ls_def)
  have "ls \<le> of_int (en * 60)" using b se d unfolding e60 by linarith
  moreover have "of_int (s * 60) \<le> ls + of_int d" using b se d unfolding s60 by linarith
  moreover have "(of_int (s * 60) :: rat) \<le> of_int (en * 60)" using se unfolding s60 e60 by linarith
  ultimately show ?thesis by (simp only: cl fst_conv snd_conv) simp
qed

lemma clamped_lunch_free:
  assumes "0 \<le> d" "d \<le> (en - s) * 60 - 30"
  shows "clamped_lunch s en d = spec_lunch s en d"
proof -
  define ls where "ls = snap30 (of_int (s * 60) + of_int ((en - s) * 60) / 2 - of_int d / 2)"
  have b: "30 * of_int s + 30 * of_int en - of_int d / 2 - 15 < ls"
    "ls \<le> 30 * of_int s + 30 * of_int en - of_int d / 2 + 15"
    using lunch_snap_bounds [of s en d] by (simp_all add: ls_def)
  from assms(2) have "(of_int d :: rat) \<le> of_int ((en - s) * 60 - 30)" by (simp only: of_int_le_iff)
  then have dl: "(of_int d :: rat) \<le> 60 * of_int en - 60 * of_int s - 30" by simp
  have s60: "(of_int (s * 60) :: rat) = 60 * of_int s" and e60: "(of_int (en * 60) :: rat) = 60 * of_int en"
    by simp_all
  have cl: "clamped_lunch s en d = (max (of_int (s * 60)) ls, min (of_int (en * 60)) (ls + of_int d))"
    by (simp only: clamped_lunch_unfold ls_def)
  have sp: "spec_lunch s en d = (ls, ls + of_int d)"
    by (simp only: spec_lunch_def Let_def ls_def)
  have "of_int (s * 60) \<le> ls" using b dl unfolding s60 by linarith
  moreover have "ls + of_int d \<le> of_int (en * 60)" using b dl unfolding e60 by linarith
  ultimately show ?thesis by (simp only: cl sp) (simp add: max_def min_def)
qed

text \<open>
  Claim C7, amended.  For every roster entry of \<open>buildRoster\<close>, with a lunch text that
  parses to a number and windows that end after they start: \<open>lunchStart\<close> is the snapped
  start \<open>snap30(midpoint - lunch/2)\<close> raised to at least \<open>start*60\<close>, \<open>lunchEnd\<close> is the
  snapped start plus the lunch minutes lowered to at most \<open>end*60\<close>, and both lie within
  \<open>[start*60, end*60]\<close>.  When the lunch is at most the shift's minutes minus 30, no clamp
  applies: \<open>lunchStart\<close> is the snapped start and \<open>lunchEnd = lunchStart + lunchMinutes\<close>.
\<close>

theorem roster_lunch_amended:
  assumes "js_parseInt (js_or lunchMin ''30'') = Some n"
    and "\<forall>w \<in> set wsFT \<union> set wsPT. w_start w < w_end w"
    and "e \<in> set (buildRoster wsFT wsPT lunchMin)"
  shows "lunchStart e = Some (fst (clamped_lunch (r_start e) (r_end e) (max 0 n))) \<and>
         lunchEnd e = Some (snd (clamped_lunch (r_start e) (r_end e) (max 0 n))) \<and>
         of_int (r_start e * 60) \<le> the (lunchStart e) \<and> the (lunchStart e) \<le> of_int (r_end e * 60) \<and>
         of_int (r_start e * 60) \<le> the (lunchEnd e) \<and> the (lunchEnd e) \<le> of_int (r_end e * 60) \<and>
         (max 0 n \<le> (r_end e - r_start e) * 60 - 30 \<longrightarrow>
            lunchStart e = Some (fst (spec_lunch (r_start e) (r_end e) (max 0 n))) \<and>
            lunchEnd e = Some (the (lunchStart e) + of_int (max 0 n)))"
proof -
  from buildRoster_entries [OF assms(1,3)] obtain w where
    w: "w \<in> set wsFT \<union> set wsPT" "r_start e = w_start w" "r_end e = w_end w"
      "lunchStart e = Some (fst (clamped_lunch (w_start w) (w_end w) (max 0 n)))"
      "lunchEnd e = Some (snd (clamped_lunch (w_start w) (w_end w) (max 0 n)))"
    by blast
  from assms(2) w(1) have lt: "w_start w < w_end w" by blast
  have d: "0 \<le> max 0 n" by simp
  note within = clamped_lunch_within [OF lt d]
  have free: "max 0 n \<le> (w_end w - w_start w) * 60 - 30 \<Longrightarrow>
      clamped_lunch (w_start w) (w_end w) (max 0 n) = spec_lunch (w_start w) (w_end w) (max 0 n)"
    by (rule clamped_lunch_free [OF d])
  have snd_spec: "snd (spec_lunch (w_start w) (w_end w) (max 0 n)) =
      fst (spec_lunch (w_start w) (w_end w) (max 0 n)) + of_int (max 0 n)"
    by (simp add: spec_lunch_def Let_def)
  have a: "lunchStart e = Some (fst (clamped_lunch (r_start e) (r_end e) (max 0 n)))"
    and b: "lunchEnd e = Some (snd (clamped_lunch (r_start e) (r_end e) (max 0 n)))"
    by (simp_all only: w(2-5))
  have c: "of_int (r_start e * 60) \<le> the (lunchStart e) \<and> the (lunchStart e) \<le> of_int (r_end e * 60) \<and>
         of_int (r_start e * 60) \<le> the (lunchEnd e) \<and> the (lunchEnd e) \<le> of_int (r_end e * 60)"
    using within by (simp only: w(2-5) option.sel)
  have d: "lunchStart e = Some (fst (spec_lunch (r_start e) (r_end e) (max 0 n))) \<and>
            lunchEnd e = Some (the (lunchStart e) + of_int (max 0 n))"
    if "max 0 n \<le> (r_end e - r_start e) * 60 - 30"
  proof -
    from that have "max 0 n \<le> (w_end w - w_start w) * 60 - 30" by (simp only: w(2,3))
    from free [OF this] snd_spec show ?thesis by (simp only: w(2-5) option.sel)
  qed
  from a b c d show ?thesis by blast
qed

section \<open>Scenario C of the specification, and the roster of scenario A\<close>

definition scenarioC_required :: "int list" where
  "scenarioC_required = [0, 0, 0, 0, 0, 0, 0, 3, 0, 0, 0, 0, 0, 0, 0, 0, 0, 0, 0, 0, 0, 0, 0, 0]"

definition no_staff :: capacity_limits where
  "no_staff = \<lparr> capFT = 0, capPT = 0, maxFTShifts = 0, maxPTShifts = 0 \<rparr>"

lemma scenarioC_plan:
  "buildShiftPlanStrategic scenarioC_required no_staff scenarioA_opts =
     \<lparr> plan_shiftsFT = [], plan_shiftsPT = [],
       coverage = [0, 0, 0, 0, 0, 0, 0, 0, 0, 0, 0, 0, 0, 0, 0, 0, 0, 0, 0, 0, 0, 0, 0, 0],
       required = scenarioC_required,
       shortage = [0, 0, 0, 0, 0, 0, 0, 3, 0, 0, 0, 0, 0, 0, 0, 0, 0, 0, 0, 0, 0, 0, 0, 0],
       excess = [0, 0, 0, 0, 0, 0, 0, 0, 0, 0, 0, 0, 0, 0, 0, 0, 0, 0, 0, 0, 0, 0, 0, 0],
       maxConcurrent = 0, limits = no_staff, hoursShort = 1, totalShortUnits = 3 \<rparr>"
  by code_simp

lemma scenarioC_recommendation:
  "computeHireRecommendations
     (Some (buildShiftPlanStrategic scenarioC_required no_staff scenarioA_opts)) 4 =
   Some \<lparr> totalShort = 3, peakShort = 3, minFT8 = 3, minPTcur = 1, minPT4 = 1, minPT6 = 1,
          mixed_ft = 3, mixed_pt = 0, mixed_ptLenHours = 4 \<rparr>"
  unfolding scenarioC_plan by code_simp

theorem hire_recommendations_witness:
  "(0::int) < 4 \<and>
   totalShortUnits (buildShiftPlanStrategic scenarioC_required no_staff scenarioA_opts) =
     sum_list (shortage (buildShiftPlanStrategic scenarioC_required no_staff scenarioA_opts)) \<and>
   list_all (\<lambda>v. 0 \<le> v) (shortage (buildShiftPlanStrategic scenarioC_required no_staff scenarioA_opts)) \<and>
   computeHireRecommendations
     (Some (buildShiftPlanStrategic scenarioC_required no_staff scenarioA_opts)) 4 =
   Some \<lparr> totalShort = 3, peakShort = 3, minFT8 = 3, minPTcur = 1, minPT4 = 1, minPT6 = 1,
          mixed_ft = 3, mixed_pt = 0, mixed_ptLenHours = 4 \<rparr> \<and>
   (3::int) = sum_list (shortage (buildShiftPlanStrategic scenarioC_required no_staff scenarioA_opts)) \<and>
   (3::int) = Max (set (shortage (buildShiftPlanStrategic scenarioC_required no_staff scenarioA_opts))) \<and>
   (3::int) = max \<lceil>real_of_int 3 / 8\<rceil> 3"
proof -
  let ?p = "buildShiftPlanStrategic scenarioC_required no_staff scenarioA_opts"
  let ?r = "\<lparr> totalShort = 3, peakShort = 3, minFT8 = 3, minPTcur = 1, minPT4 = 1, minPT6 = 1,
          mixed_ft = 3, mixed_pt = 0, mixed_ptLenHours = 4 \<rparr>"
  have h1: "(0::int) < 4" by simp
  have h2: "totalShortUnits ?p = sum_list (shortage ?p)" by (simp add: scenarioC_plan)
  have h3: "\<forall>v \<in> set (shortage ?p). 0 \<le> v" by (simp add: scenarioC_plan)
  have h3': "list_all (\<lambda>v. 0 \<le> v) (shortage ?p)" by (simp add: scenarioC_plan)
  note h4 = scenarioC_recommendation
  from hire_recommendations_amended [of 4 ?p scenarioC_required no_staff scenarioA_opts ?r] h1 h2 h3 h4
  have "totalShort ?r = sum_list (shortage ?p) \<and> peakShort ?r = Max (set (shortage ?p)) \<and>
        minFT8 ?r = max \<lceil>real_of_int (totalShort ?r) / 8\<rceil> (peakShort ?r)"
    by blast
  then have "(3::int) = sum_list (shortage ?p) \<and> (3::int) = Max (set (shortage ?p)) \<and>
        (3::int) = max \<lceil>real_of_int 3 / 8\<rceil> 3"
    by simp
  with h1 h2 h3' h4 show ?thesis by blast
qed

text \<open>
  Against claim C6 as stated: the plan of scenario A has no shortage in any hour, and
  \<open>computeHireRecommendations\<close> still returns a recommendation, with every value 0.
\<close>

theorem hire_none_counterexample:
  "list_all (\<lambda>v. v = 0) (shortage (buildShiftPlanStrategic scenarioA_required scenarioA_limits scenarioA_opts)) \<and>
   computeHireRecommendations
     (Some (buildShiftPlanStrategic scenarioA_required scenarioA_limits scenarioA_opts)) 4 =
   Some \<lparr> totalShort = 0, peakShort = 0, minFT8 = 0, minPTcur = 0, minPT4 = 0, minPT6 = 0,
          mixed_ft = 0, mixed_pt = 0, mixed_ptLenHours = 4 \<rparr>"
  unfolding scenarioA_plan by code_simp

lemma scenarioA_roster:
  "buildRoster (plan_shiftsFT (buildShiftPlanStrategic scenarioA_required scenarioA_limits scenarioA_opts))
     (plan_shiftsPT (buildShiftPlanStrategic scenarioA_required scenarioA_limits scenarioA_opts)) ''30'' =
   [\<lparr> r_agent = ''FT-1'', r_type = ''FT'', r_start = 1, r_end = 9, r_hours = 8,
       lunchStart = Some 300, lunchEnd = Some 330 \<rparr>,
    \<lparr> r_agent = ''FT-2'', r_type = ''FT'', r_start = 1, r_end = 9, r_hours = 8,
       lunchStart = Some 300, lunchEnd = Some 330 \<rparr>,
    \<lparr> r_agent = ''FT-3'', r_type = ''FT'', r_start = 1, r_end = 9, r_hours = 8,
       lunchStart = Some 300, lunchEnd = Some 330 \<rparr>,
    \<lparr> r_agent = ''FT-4'', r_type = ''FT'', r_start = 1, r_end = 9, r_hours = 8,
       lunchStart = Some 300, lunchEnd = Some 330 \<rparr>,
    \<lparr> r_agent = ''FT-5'', r_type = ''FT'', r_start = 1, r_end = 9, r_hours = 8,
       lunchStart = Some 300, lunchEnd = Some 330 \<rparr>]"
  unfolding scenarioA_plan by code_simp

text \<open>
  Against claim C7 as stated: with 600 lunch minutes the five shifts \<open>1..9\<close> of scenario A
  get the lunch window \<open>[60, 540]\<close>.  The snapped start is 0, so \<open>lunchStart\<close> is not the
  snapped start, and \<open>lunchEnd\<close> is not \<open>lunchStart + 600\<close>.
\<close>

theorem roster_lunch_counterexample:
  "map (\<lambda>e. (r_start e, r_end e, lunchStart e, lunchEnd e))
     (buildRoster (plan_shiftsFT (buildShiftPlanStrategic scenarioA_required scenarioA_limits scenarioA_opts))
        (plan_shiftsPT (buildShiftPlanStrategic scenarioA_required scenarioA_limits scenarioA_opts)) ''600'') =
   replicate 5 (1, 9, Some 60, Some 540) \<and>
   spec_lunch 1 9 600 = (0, 600) \<and> Some (60 + 600) \<noteq> Some (540 :: rat)"
  unfolding scenarioA_plan by code_simp

theorem roster_lunch_witness:
  "js_parseInt (js_or ''30'' ''30'') = Some 30 \<and>
   list_all (\<lambda>w. w_start w < w_end w)
     (plan_shiftsFT (buildShiftPlanStrategic scenarioA_required scenarioA_limits scenarioA_opts) @
      plan_shiftsPT (buildShiftPlanStrategic scenarioA_required scenarioA_limits scenarioA_opts)) \<and>
   \<lparr> r_agent = ''FT-1'', r_type = ''FT'', r_start = 1, r_end = 9, r_hours = 8,
       lunchStart = Some 300, lunchEnd = Some 330 \<rparr>
     \<in> set (buildRoster (plan_shiftsFT (buildShiftPlanStrategic scenarioA_required scenarioA_limits scenarioA_opts))
        (plan_shiftsPT (buildShiftPlanStrategic scenarioA_required scenarioA_limits scenarioA_opts)) ''30'') \<and>
   Some (300 :: rat) = Some (fst (clamped_lunch 1 9 (max 0 30))) \<and>
   Some (330 :: rat) = Some (snd (clamped_lunch 1 9 (max 0 30))) \<and>
   (60 :: rat) \<le> 300 \<and> (330 :: rat) \<le> 540 \<and>
   Some (300 :: rat) = Some (fst (spec_lunch 1 9 (max 0 30))) \<and>
   Some (330 :: rat) = Some (300 + of_int (max 0 30))"
proof -
  let ?p = "buildShiftPlanStrategic scenarioA_required scenarioA_limits scenarioA_opts"
  let ?e = "\<lparr> r_agent = ''FT-1'', r_type = ''FT'', r_start = 1, r_end = 9, r_hours = 8,
       lunchStart = Some (300 :: rat), lunchEnd = Some (330 :: rat) \<rparr>"
  have h1: "js_parseInt (js_or ''30'' ''30'') = Some 30" by code_simp
  have h2: "\<forall>w \<in> set (plan_shiftsFT ?p) \<union> set (plan_shiftsPT ?p). w_start w < w_end w"
    by (simp add: scenarioA_plan)
  have h2': "list_all (\<lambda>w. w_start w < w_end w) (plan_shiftsFT ?p @ plan_shiftsPT ?p)"
    by (simp add: scenarioA_plan)
  have h3: "?e \<in> set (buildRoster (plan_shiftsFT ?p) (plan_shiftsPT ?p) ''30'')"
    by (simp add: scenarioA_roster)
  from roster_lunch_amended [OF h1 h2 h3]
  have "Some (300 :: rat) = Some (fst (clamped_lunch 1 9 (max 0 30))) \<and>
   Some (330 :: rat) = Some (snd (clamped_lunch 1 9 (max 0 30))) \<and>
   (60 :: rat) \<le> 300 \<and> (330 :: rat) \<le> 540 \<and>
   Some (300 :: rat) = Some (fst (spec_lunch 1 9 (max 0 30))) \<and>
   Some (330 :: rat) = Some (300 + of_int (max 0 30))"
    by simp
  with h1 h2' h3 show ?thesis by blast
qed

section \<open>One placement step against the specification\<close>

text \<open>
  The placement step as the specification words it.  \<open>isFT\<close> selects the class, \<open>len\<close>
  is the shift length of the class.
\<close>

definition spec_feasible :: "capacity_limits \<Rightarrow> pstate \<Rightarrow> bool \<Rightarrow> nat \<Rightarrow> nat \<Rightarrow> bool" where
  "spec_feasible L st isFT len s =
     ((if isFT then placedFT st < maxFTShifts L else placedPT st < maxPTShifts L) \<and>
      list_all (\<lambda>h. (if isFT then covFT st ! h < capFT L else covPT st ! h < capPT L) \<and>
                     covFT st ! h + covPT st ! h < capFT L + capPT L) [s ..< s + len])"

definition spec_room :: "capacity_limits \<Rightarrow> pstate \<Rightarrow> bool \<Rightarrow> nat \<Rightarrow> int" where
  "spec_room L st isFT h =
     min (capFT L + capPT L - (covFT st ! h + covPT st ! h))
         (if isFT then capFT L - covFT st ! h else capPT L - covPT st ! h)"

definition spec_score :: "capacity_limits \<Rightarrow> pstate \<Rightarrow> bool \<Rightarrow> nat \<Rightarrow> nat \<Rightarrow> int" where
  "spec_score L st isFT len s = (\<Sum>h\<leftarrow>[s ..< s + len]. min (deficit st ! h) (spec_room L st isFT h))"

text \<open>
  The start the step selects: a feasible start with a positive score that no feasible
  start beats and no earlier feasible start equals.  The starts are \<open>0..(24 - len)\<close>.
\<close>

definition spec_chosen :: "capacity_limits \<Rightarrow> pstate \<Rightarrow> bool \<Rightarrow> nat \<Rightarrow> nat \<Rightarrow> bool" where
  "spec_chosen L st isFT len s =
     (s + len \<le> H \<and> spec_feasible L st isFT len s \<and> 0 < spec_score L st isFT len s \<and>
      list_all (\<lambda>t. spec_feasible L st isFT len t \<longrightarrow>
                  spec_score L st isFT len t \<le> spec_score L st isFT len s \<and>
                  (t < s \<longrightarrow> spec_score L st isFT len t < spec_score L st isFT len s))
        [0 ..< (H + 1) - len])"

definition spec_useless :: "capacity_limits \<Rightarrow> pstate \<Rightarrow> bool \<Rightarrow> nat \<Rightarrow> bool" where
  "spec_useless L st isFT len =
     list_all (\<lambda>t. spec_feasible L st isFT len t \<longrightarrow> spec_score L st isFT len t \<le> 0)
       [0 ..< (H + 1) - len]"

definition spec_over :: "(int \<Rightarrow> int) \<Rightarrow> int list \<Rightarrow> nat \<Rightarrow> nat \<Rightarrow> int list" where
  "spec_over f xs s len = map (\<lambda>h. if s \<le> h \<and> h < s + len then f (xs ! h) else xs ! h) [0 ..< length xs]"

definition spec_placed :: "pstate \<Rightarrow> bool \<Rightarrow> nat \<Rightarrow> nat \<Rightarrow> pstate" where
  "spec_placed st isFT len s =
     (if isFT
      then st\<lparr> shiftsFT := shiftsFT st @ [\<lparr> w_start = int s, w_end = int s + int len, w_count = 1 \<rparr>],
               covFT := spec_over (\<lambda>v. v + 1) (covFT st) s len,
               deficit := spec_over (\<lambda>v. max 0 (v - 1)) (deficit st) s len,
               placedFT := placedFT st + 1 \<rparr>
      else st\<lparr> shiftsPT := shiftsPT st @ [\<lparr> w_start = int s, w_end = int s + int len, w_count = 1 \<rparr>],
               covPT := spec_over (\<lambda>v. v + 1) (covPT st) s len,
               deficit := spec_over (\<lambda>v. max 0 (v - 1)) (deficit st) s len,
               placedPT := placedPT st + 1 \<rparr>)"

lemma over_window_spec: "over_window f xs s len = spec_over f xs s len"
  by (rule nth_equalityI) (simp_all add: spec_over_def over_window_nth)

lemma canPlaceFTAt_spec: "canPlaceFTAt L st s = spec_feasible L st True FT s"
  by (auto simp: canPlaceFTAt_def spec_feasible_def list_all_iff not_le)

lemma canPlacePTAt_spec: "canPlacePTAt L PT st s = spec_feasible L st False PT s"
  by (auto simp: canPlacePTAt_def spec_feasible_def list_all_iff not_le)

lemma foldl_plus: "foldl (\<lambda>a h. a + f h) z xs = z + (\<Sum>h\<leftarrow>xs. (f h :: int))"
  by (induction xs arbitrary: z) simp_all

lemma hourScore_FT:
  "covFT st ! h < capFT L \<Longrightarrow> covFT st ! h + covPT st ! h < capFT L + capPT L \<Longrightarrow>
   hourScore L st ''FT'' h = min (deficit st ! h) (spec_room L st True h)"
  by (simp add: hourScore_def spec_room_def Let_def min_def max_def)

lemma hourScore_PT:
  "covPT st ! h < capPT L \<Longrightarrow> covFT st ! h + covPT st ! h < capFT L + capPT L \<Longrightarrow>
   hourScore L st ''PT'' h = min (deficit st ! h) (spec_room L st False h)"
  by (simp add: hourScore_def spec_room_def Let_def min_def max_def)

lemma scoreWindow_FT:
  "spec_feasible L st True len s \<Longrightarrow> scoreWindow L st s len ''FT'' = spec_score L st True len s"
proof -
  assume "spec_feasible L st True len s"
  then have eq: "map (hourScore L st ''FT'') [s ..< s + len] =
      map (\<lambda>h. min (deficit st ! h) (spec_room L st True h)) [s ..< s + len]"
    by (intro map_cong refl) (simp add: spec_feasible_def list_all_iff hourScore_FT)
  show ?thesis unfolding scoreWindow_def spec_score_def foldl_plus eq by simp
qed

lemma scoreWindow_PT:
  "spec_feasible L st False len s \<Longrightarrow> scoreWindow L st s len ''PT'' = spec_score L st False len s"
proof -
  assume "spec_feasible L st False len s"
  then have eq: "map (hourScore L st ''PT'') [s ..< s + len] =
      map (\<lambda>h. min (deficit st ! h) (spec_room L st False h)) [s ..< s + len]"
    by (intro map_cong refl) (simp add: spec_feasible_def list_all_iff hourScore_PT)
  show ?thesis unfolding scoreWindow_def spec_score_def foldl_plus eq by simp
qed

lemma scan_cong:
  "(\<And>s. s \<in> set starts \<Longrightarrow> can s = can' s) \<Longrightarrow>
   (\<And>s. s \<in> set starts \<Longrightarrow> can s \<Longrightarrow> sc s = sc' s) \<Longrightarrow>
   foldl (scan_step can sc) acc starts = foldl (scan_step can' sc') acc starts"
proof (induction starts arbitrary: acc)
  case Nil
  show ?case by simp
next
  case (Cons a starts)
  have "scan_step can sc acc a = scan_step can' sc' acc a"
    using Cons.prems(1) [of a] Cons.prems(2) [of a] by (auto simp: scan_step_def)
  with Cons show ?case by simp
qed

lemma scan_upt:
  fixes can :: "nat \<Rightarrow> bool" and sc :: "nat \<Rightarrow> int"
  defines "r n \<equiv> foldl (scan_step can sc) (- 1, 0) [0 ..< n]"
  shows "(\<forall>t<n. can t \<longrightarrow> sc t \<le> snd (r n)) \<and> 0 \<le> snd (r n) \<and>
         (r n = (- 1, 0) \<or>
          (\<exists>s<n. can s \<and> r n = (int s, sc s) \<and> 0 < sc s \<and> (\<forall>t<s. can t \<longrightarrow> sc t < sc s)))"
proof (induction n)
  case 0
  show ?case by (simp add: r_def)
next
  case (Suc n)
  have step: "r (Suc n) = scan_step can sc (r n) n" by (simp add: r_def)
  show ?case
  proof (cases "can n \<and> sc n > snd (r n)")
    case True
    then have rn: "r (Suc n) = (int n, sc n)" by (simp add: step scan_step_def)
    from Suc True have le: "\<forall>t<n. can t \<longrightarrow> sc t < sc n" by fastforce
    from Suc True have pos: "0 < sc n" by linarith
    have "\<forall>t<Suc n. can t \<longrightarrow> sc t \<le> sc n"
    proof (intro allI impI)
      fix t assume "t < Suc n" "can t"
      with le show "sc t \<le> sc n" by (cases "t = n") (auto simp: less_Suc_eq)
    qed
    moreover have "\<exists>s<Suc n. can s \<and> (int n, sc n) = (int s, sc s) \<and> 0 < sc s \<and>
        (\<forall>t<s. can t \<longrightarrow> sc t < sc s)"
      using True le pos by (intro exI [of _ n]) simp
    ultimately show ?thesis using pos by (simp only: rn snd_conv) simp
  next
    case False
    then have rn: "r (Suc n) = r n" by (auto simp: step scan_step_def)
    have "\<forall>t<Suc n. can t \<longrightarrow> sc t \<le> snd (r n)"
    proof (intro allI impI)
      fix t assume "t < Suc n" "can t"
      with Suc False show "sc t \<le> snd (r n)" by (cases "t = n") (auto simp: less_Suc_eq)
    qed
    moreover from Suc have "r n = (- 1, 0) \<or>
          (\<exists>s<Suc n. can s \<and> r n = (int s, sc s) \<and> 0 < sc s \<and> (\<forall>t<s. can t \<longrightarrow> sc t < sc s))"
      using less_Suc_eq by auto
    ultimately show ?thesis using Suc by (simp only: rn)
  qed
qed


lemma scan_spec:
  fixes L st isFT len
  defines "r \<equiv> scan_starts (spec_feasible L st isFT len) (spec_score L st isFT len) [0 ..< (H + 1) - len]"
  shows "(0 < snd r \<longrightarrow> (\<exists>s. spec_chosen L st isFT len s \<and> fst r = int s)) \<and>
         (snd r \<le> 0 \<longrightarrow> spec_useless L st isFT len)"
proof -
  let ?can = "spec_feasible L st isFT len" and ?sc = "spec_score L st isFT len"
  let ?n = "(H + 1) - len"
  have r: "r = foldl (scan_step ?can ?sc) (- 1, 0) [0 ..< ?n]"
    by (simp add: r_def scan_starts_def)
  note u = scan_upt [of ?n ?can ?sc, folded r]
  from u have bound: "\<forall>t<?n. ?can t \<longrightarrow> ?sc t \<le> snd r" and nonneg: "0 \<le> snd r"
    and cases: "r = (- 1, 0) \<or>
          (\<exists>s<?n. ?can s \<and> r = (int s, ?sc s) \<and> 0 < ?sc s \<and> (\<forall>t<s. ?can t \<longrightarrow> ?sc t < ?sc s))"
    by blast+
  show ?thesis
  proof (intro conjI impI)
    assume pos: "0 < snd r"
    with cases obtain s where s: "s < ?n" "?can s" "r = (int s, ?sc s)" "0 < ?sc s"
      "\<forall>t<s. ?can t \<longrightarrow> ?sc t < ?sc s" by auto
    from s(1) have "s + len \<le> H" by simp
    moreover from bound s(3) have "\<forall>t<?n. ?can t \<longrightarrow> ?sc t \<le> ?sc s" by simp
    ultimately have "spec_chosen L st isFT len s"
      using s(2,4,5) by (simp add: spec_chosen_def list_all_iff)
    with s(3) show "\<exists>s. spec_chosen L st isFT len s \<and> fst r = int s" by auto
  next
    assume "snd r \<le> 0"
    with bound show "spec_useless L st isFT len"
      by (auto simp: spec_useless_def list_all_iff)
  qed
qed

lemma scan_FT_spec:
  "scan_starts (canPlaceFTAt L st) (\<lambda>s. scoreWindow L st s FT ''FT'') startsFT =
   scan_starts (spec_feasible L st True FT) (spec_score L st True FT) [0 ..< (H + 1) - FT]"
proof -
  have "foldl (scan_step (canPlaceFTAt L st) (\<lambda>s. scoreWindow L st s FT ''FT'')) (- 1, 0) xs =
        foldl (scan_step (spec_feasible L st True FT) (spec_score L st True FT)) (- 1, 0) xs" for xs
    by (rule scan_cong) (simp_all add: canPlaceFTAt_spec scoreWindow_FT)
  then show ?thesis by (simp add: scan_starts_def startsFT_def)
qed

lemma scan_PT_spec:
  "scan_starts (canPlacePTAt L PT st) (\<lambda>s. scoreWindow L st s PT ''PT'') (startsPT PT) =
   scan_starts (spec_feasible L st False PT) (spec_score L st False PT) [0 ..< (H + 1) - PT]"
proof -
  have "foldl (scan_step (canPlacePTAt L PT st) (\<lambda>s. scoreWindow L st s PT ''PT'')) (- 1, 0) xs =
        foldl (scan_step (spec_feasible L st False PT) (spec_score L st False PT)) (- 1, 0) xs" for xs
    by (rule scan_cong) (simp_all add: canPlacePTAt_spec scoreWindow_PT)
  then show ?thesis by (simp add: scan_starts_def startsPT_def)
qed

lemma spec_useless_full:
  "\<not> (if isFT then placedFT st < maxFTShifts L else placedPT st < maxPTShifts L) \<Longrightarrow>
   spec_useless L st isFT len"
  by (simp add: spec_useless_def spec_feasible_def list_all_iff)

lemma spec_chosen_unique:
  assumes "spec_chosen L st isFT len s" "spec_chosen L st isFT len s'"
  shows "s = s'"
proof -
  have lt: False if c: "spec_chosen L st isFT len a" "spec_chosen L st isFT len b" "a < b" for a b
  proof -
    from c(1) have a: "a < (H + 1) - len" "spec_feasible L st isFT len a"
      by (auto simp: spec_chosen_def)
    from c(2) have b: "b < (H + 1) - len" "spec_feasible L st isFT len b"
      by (auto simp: spec_chosen_def)
    from c(2) a c(3) have "spec_score L st isFT len a < spec_score L st isFT len b"
      by (auto simp: spec_chosen_def list_all_iff)
    moreover from c(1) b have "spec_score L st isFT len b \<le> spec_score L st isFT len a"
      by (auto simp: spec_chosen_def list_all_iff)
    ultimately show False by simp
  qed
  from lt [OF assms] lt [OF assms(2,1)] show ?thesis by (cases s s' rule: linorder_cases) auto
qed

text \<open>
  Claim C4 (one placement step).  In a state whose three arrays have 24 entries,
  \<open>placeOneFT\<close> scans the starts \<open>0..16\<close> and \<open>placeOnePT\<close> the starts
  \<open>0..(24 - ptLenHours)\<close>.  When the step succeeds, it has selected the feasible start
  whose window score (the sum over the window of \<open>min(deficit[h], min(combined room,
  class room))\<close>) is positive and greatest, the smallest such start on a tie; that start
  is unique; and the new state has a count-1 window appended, the class's coverage
  raised by 1 over the window, the deficit lowered by 1 and floored at 0 over the window,
  and the class's placed-count raised by 1.  When the step fails, no feasible start has
  a positive score and the state is unchanged.
\<close>

theorem placement_step:
  assumes "length (covFT st) = H" "length (covPT st) = H" "length (deficit st) = H"
  shows "(fst (placeOneFT L st) \<longrightarrow>
            (\<exists>s. spec_chosen L st True FT s \<and> snd (placeOneFT L st) = spec_placed st True FT s)) \<and>
         (\<not> fst (placeOneFT L st) \<longrightarrow>
            spec_useless L st True FT \<and> snd (placeOneFT L st) = st) \<and>
         (fst (placeOnePT L PT st) \<longrightarrow>
            (\<exists>s. spec_chosen L st False PT s \<and> snd (placeOnePT L PT st) = spec_placed st False PT s)) \<and>
         (\<not> fst (placeOnePT L PT st) \<longrightarrow>
            spec_useless L st False PT \<and> snd (placeOnePT L PT st) = st) \<and>
         (\<forall>isFT len s s'. spec_chosen L st isFT len s \<and> spec_chosen L st isFT len s' \<longrightarrow> s = s')"
proof (intro conjI impI allI)
  let ?r = "scan_starts (canPlaceFTAt L st) (\<lambda>s. scoreWindow L st s FT ''FT'') startsFT"
  note sp = scan_spec [of L st True FT, folded scan_FT_spec]
  {
    assume ok: "fst (placeOneFT L st)"
    then have pos: "0 < snd ?r" by (auto simp: placeOneFT_def Let_def split: if_splits)
    with sp obtain s where s: "spec_chosen L st True FT s" "fst ?r = int s" by blast
    from ok pos s(2) have "snd (placeOneFT L st) = spec_placed st True FT s"
      by (auto simp: placeOneFT_def Let_def spec_placed_def over_window_spec split: if_splits)
    with s(1) show "\<exists>s. spec_chosen L st True FT s \<and> snd (placeOneFT L st) = spec_placed st True FT s"
      by blast
  }
  {
    assume no: "\<not> fst (placeOneFT L st)"
    show "snd (placeOneFT L st) = st" using no by (rule placeOneFT_fail)
    show "spec_useless L st True FT"
    proof (cases "placedFT st \<ge> maxFTShifts L")
      case True
      then show ?thesis by (intro spec_useless_full) simp
    next
      case False
      with no have "snd ?r \<le> 0" by (auto simp: placeOneFT_def Let_def split: if_splits)
      with sp show ?thesis by blast
    qed
  }
next
  let ?r = "scan_starts (canPlacePTAt L PT st) (\<lambda>s. scoreWindow L st s PT ''PT'') (startsPT PT)"
  note sp = scan_spec [of L st False PT, folded scan_PT_spec]
  {
    assume ok: "fst (placeOnePT L PT st)"
    then have pos: "0 < snd ?r" by (auto simp: placeOnePT_def Let_def split: if_splits)
    with sp obtain s where s: "spec_chosen L st False PT s" "fst ?r = int s" by blast
    from ok pos s(2) have "snd (placeOnePT L PT st) = spec_placed st False PT s"
      by (auto simp: placeOnePT_def Let_def spec_placed_def over_window_spec split: if_splits)
    with s(1) show "\<exists>s. spec_chosen L st False PT s \<and> snd (placeOnePT L PT st) = spec_placed st False PT s"
      by blast
  }
  {
    assume no: "\<not> fst (placeOnePT L PT st)"
    show "snd (placeOnePT L PT st) = st" using no by (rule placeOnePT_fail)
    show "spec_useless L st False PT"
    proof (cases "placedPT st \<ge> maxPTShifts L")
      case True
      then show ?thesis by (intro spec_useless_full) simp
    next
      case False
      with no have "snd ?r \<le> 0" by (auto simp: placeOnePT_def Let_def split: if_splits)
      with sp show ?thesis by blast
    qed
  }
next
  fix isFT len s s'
  assume "spec_chosen L st isFT len s \<and> spec_chosen L st isFT len s'"
  then show "s = s'" using spec_chosen_unique by blast
qed

theorem placement_step_witness:
  "length (covFT (init_state scenarioA_required)) = H \<and>
   length (covPT (init_state scenarioA_required)) = H \<and>
   length (deficit (init_state scenarioA_required)) = H \<and>
   fst (placeOneFT scenarioA_limits (init_state scenarioA_required)) \<and>
   (\<exists>s. spec_chosen scenarioA_limits (init_state scenarioA_required) True FT s \<and>
        snd (placeOneFT scenarioA_limits (init_state scenarioA_required)) =
          spec_placed (init_state scenarioA_required) True FT s) \<and>
   spec_chosen scenarioA_limits (init_state scenarioA_required) True FT 1 \<and>
   \<not> fst (placeOnePT scenarioA_limits 4 (init_state scenarioA_required)) \<and>
   spec_useless scenarioA_limits (init_state scenarioA_required) False 4 \<and>
   snd (placeOnePT scenarioA_limits 4 (init_state scenarioA_required)) = init_state scenarioA_required"
proof -
  let ?s0 = "init_state scenarioA_required"
  have h: "length (covFT ?s0) = H" "length (covPT ?s0) = H" "length (deficit ?s0) = H"
    by (simp_all add: init_state_def scenarioA_required_def)
  have f1: "fst (placeOneFT scenarioA_limits ?s0)" by code_simp
  have f2: "\<not> fst (placeOnePT scenarioA_limits 4 ?s0)" by code_simp
  have c1: "spec_chosen scenarioA_limits ?s0 True FT 1" by code_simp
  from placement_step [OF h, of scenarioA_limits 4] f1 f2 c1 h show ?thesis by blast
qed

section \<open>Determinism\<close>

text \<open>
  What \<^verbatim>\<open>arr.sort(cmp)\<close> may return, whatever algorithm the engine runs: a rearrangement
  of the array in which no element is ordered after a later one.
\<close>

definition sort_result :: "window list \<Rightarrow> window list \<Rightarrow> bool" where
  "sort_result arr ys \<longleftrightarrow> mset ys = mset arr \<and> sorted_wrt (\<lambda>a b. cmp a b \<le> 0) ys"

text \<open>
  The plan of a run of \<open>buildShiftPlanStrategic\<close> in which the two sorts inside \<open>merge\<close>
  return \<open>ysFT\<close> and \<open>ysPT\<close>; no other field depends on the sorts.
\<close>

definition plan_run ::
  "int list \<Rightarrow> capacity_limits \<Rightarrow> plan_opts \<Rightarrow> window list \<Rightarrow> window list \<Rightarrow> plan_result" where
  "plan_run req L opts ysFT ysPT =
     (buildShiftPlanStrategic req L opts)
       \<lparr> plan_shiftsFT := foldl merge_step [] ysFT, plan_shiftsPT := foldl merge_step [] ysPT \<rparr>"

lemma cmp_le: "cmp a b \<le> 0 \<longleftrightarrow> w_start a < w_start b \<or> (w_start a = w_start b \<and> w_end a \<le> w_end b)"
  by (auto simp: cmp_def)

lemma set_insert_window: "set (insert_window p qs) = insert p (set qs)"
  by (induction qs) auto

lemma mset_insert_window: "mset (insert_window p qs) = add_mset p (mset qs)"
  by (induction qs) auto

lemma sorted_insert_window:
  "sorted_wrt (\<lambda>a b. cmp a b \<le> 0) qs \<Longrightarrow> sorted_wrt (\<lambda>a b. cmp a b \<le> 0) (insert_window p qs)"
proof (induction qs)
  case Nil
  show ?case by simp
next
  case (Cons q qs)
  show ?case
  proof (cases "cmp p q \<le> 0")
    case True
    with Cons.prems have "\<forall>x \<in> set (q # qs). cmp p x \<le> 0"
      by (auto simp: cmp_le)
    with True Cons.prems show ?thesis by simp
  next
    case False
    then have "cmp q p \<le> 0" by (auto simp: cmp_le)
    with False Cons show ?thesis by (auto simp: set_insert_window)
  qed
qed

lemma sort_windows_result: "sort_result arr (sort_windows arr)"
proof -
  have "mset (foldr insert_window arr []) = mset arr \<and>
        sorted_wrt (\<lambda>a b. cmp a b \<le> 0) (foldr insert_window arr [])"
    by (induction arr) (simp_all add: mset_insert_window sorted_insert_window)
  then show ?thesis by (simp add: sort_result_def sort_windows_def)
qed

lemma sorted_perm_unique:
  assumes "\<And>a b. a \<in> set xs \<Longrightarrow> b \<in> set xs \<Longrightarrow> cmp a b \<le> 0 \<Longrightarrow> cmp b a \<le> 0 \<Longrightarrow> a = b"
  shows "mset ys = mset xs \<Longrightarrow> sorted_wrt (\<lambda>a b. cmp a b \<le> 0) xs \<Longrightarrow>
         sorted_wrt (\<lambda>a b. cmp a b \<le> 0) ys \<Longrightarrow> ys = xs"
  using assms
proof (induction xs arbitrary: ys)
  case Nil
  then show ?case by simp
next
  case (Cons x xs)
  from Cons.prems(1) obtain y ys' where ys: "ys = y # ys'" by (cases ys) auto
  have "x \<in># mset ys" using Cons.prems(1) by simp
  then have xin: "x \<in> set ys" by simp
  have "y \<in># mset (x # xs)" using Cons.prems(1) ys by (metis list.set_intros(1) set_mset_mset)
  then have yin: "y \<in> set (x # xs)" by simp
  have "x = y"
  proof (rule ccontr)
    assume ne: "x \<noteq> y"
    with xin ys have "x \<in> set ys'" by auto
    with Cons.prems(3) ys have 1: "cmp y x \<le> 0" by auto
    from ne yin have "y \<in> set xs" by auto
    with Cons.prems(2) have 2: "cmp x y \<le> 0" by auto
    from Cons.prems(4) [OF _ yin 2 1] ne show False by simp
  qed
  with Cons.prems(1) ys have m: "mset ys' = mset xs" by simp
  have "ys' = xs"
  proof (rule Cons.IH [OF m])
    show "sorted_wrt (\<lambda>a b. cmp a b \<le> 0) xs" using Cons.prems(2) by simp
    show "sorted_wrt (\<lambda>a b. cmp a b \<le> 0) ys'" using Cons.prems(3) ys by simp
    show "\<And>a b. a \<in> set xs \<Longrightarrow> b \<in> set xs \<Longrightarrow> cmp a b \<le> 0 \<Longrightarrow> cmp b a \<le> 0 \<Longrightarrow> a = b"
      using Cons.prems(4) by simp
  qed
  with \<open>x = y\<close> ys show ?case by simp
qed

lemma sort_result_unique:
  assumes "\<forall>w \<in> set arr. w_count w = 1" "sort_result arr ys"
  shows "ys = sort_windows arr"
proof -
  let ?xs = "sort_windows arr"
  from sort_windows_result [of arr] have xs: "mset ?xs = mset arr"
    "sorted_wrt (\<lambda>a b. cmp a b \<le> 0) ?xs" by (simp_all add: sort_result_def)
  then have "set ?xs = set arr" by (metis set_mset_mset)
  with assms(1) have unit: "\<forall>w \<in> set ?xs. w_count w = 1" by simp
  show ?thesis
  proof (rule sorted_perm_unique)
    fix a b assume "a \<in> set ?xs" "b \<in> set ?xs" "cmp a b \<le> 0" "cmp b a \<le> 0"
    with unit show "a = b" by (auto simp: cmp_le)
  next
    show "mset ys = mset ?xs" using assms(2) xs(1) by (simp add: sort_result_def)
    show "sorted_wrt (\<lambda>a b. cmp a b \<le> 0) ?xs" by (rule xs(2))
    show "sorted_wrt (\<lambda>a b. cmp a b \<le> 0) ys" using assms(2) by (simp add: sort_result_def)
  qed
qed

lemma reachable_unit_count:
  "reachable L PT req st \<Longrightarrow> \<forall>w \<in> set (shiftsFT st) \<union> set (shiftsPT st). w_count w = 1"
proof (induction rule: reachable.induct)
  case reach_init
  show ?case by (simp add: init_state_def)
next
  case (reach_FT st)
  from placeOneFT_success [OF reach_FT.hyps(2)] obtain s where
    "snd (placeOneFT L st) =
       st\<lparr> shiftsFT := shiftsFT st @ [\<lparr> w_start = int s, w_end = int s + int FT, w_count = 1 \<rparr>],
           covFT := over_window (\<lambda>v. v + 1) (covFT st) s FT,
           deficit := over_window (\<lambda>v. max 0 (v - 1)) (deficit st) s FT,
           placedFT := placedFT st + 1 \<rparr>" by blast
  with reach_FT.IH show ?case by auto
next
  case (reach_PT st)
  from placeOnePT_success [OF reach_PT.hyps(2)] obtain s where
    "snd (placeOnePT L PT st) =
       st\<lparr> shiftsPT := shiftsPT st @ [\<lparr> w_start = int s, w_end = int s + int PT, w_count = 1 \<rparr>],
           covPT := over_window (\<lambda>v. v + 1) (covPT st) s PT,
           deficit := over_window (\<lambda>v. max 0 (v - 1)) (deficit st) s PT,
           placedPT := placedPT st + 1 \<rparr>" by blast
  with reach_PT.IH show ?case by auto
qed

lemma plan_run_eq:
  assumes "sort_result (shiftsFT (final_state req L opts)) ysFT"
    and "sort_result (shiftsPT (final_state req L opts)) ysPT"
  shows "plan_run req L opts ysFT ysPT = buildShiftPlanStrategic req L opts"
proof -
  from reachable_unit_count [OF final_reachable [of L opts req]]
  have u: "\<forall>w \<in> set (shiftsFT (final_state req L opts)). w_count w = 1"
    "\<forall>w \<in> set (shiftsPT (final_state req L opts)). w_count w = 1" by auto
  from sort_result_unique [OF u(1) assms(1)] sort_result_unique [OF u(2) assms(2)]
  have "foldl merge_step [] ysFT = plan_shiftsFT (buildShiftPlanStrategic req L opts)"
    "foldl merge_step [] ysPT = plan_shiftsPT (buildShiftPlanStrategic req L opts)"
    by (simp_all add: plan_fields merge_def)
  then show ?thesis by (simp add: plan_run_def)
qed

text \<open>
  Claim C9 (determinism).  The planner and the roster builder are functions of their
  arguments (requirement vector, limits, strategy, mixed ratio, part-time length, weekend
  flag, lunch text); the one step whose outcome depends on the sorting algorithm of the
  engine is the order in which \<^verbatim>\<open>sort\<close> puts windows that compare equal.  Any two runs
  on the same inputs, whatever their sorts return, give the same plan, which is the one
  of \<open>buildShiftPlanStrategic\<close>, and the same roster in the same order.
\<close>

theorem planner_deterministic:
  assumes "length req = H"
    and "sort_result (shiftsFT (final_state req L opts)) ysFT"
    and "sort_result (shiftsPT (final_state req L opts)) ysPT"
    and "sort_result (shiftsFT (final_state req L opts)) zsFT"
    and "sort_result (shiftsPT (final_state req L opts)) zsPT"
  shows "plan_run req L opts ysFT ysPT = plan_run req L opts zsFT zsPT \<and>
         plan_run req L opts ysFT ysPT = buildShiftPlanStrategic req L opts \<and>
         buildRoster (plan_shiftsFT (plan_run req L opts ysFT ysPT))
           (plan_shiftsPT (plan_run req L opts ysFT ysPT)) lunchMin =
         buildRoster (plan_shiftsFT (plan_run req L opts zsFT zsPT))
           (plan_shiftsPT (plan_run req L opts zsFT zsPT)) lunchMin"
  using plan_run_eq [OF assms(2,3)] plan_run_eq [OF assms(4,5)] by simp

theorem planner_deterministic_witness:
  "length scenarioA_required = H \<and>
   sort_result (shiftsFT (final_state scenarioA_required scenarioA_limits scenarioA_opts))
     (replicate 5 \<lparr> w_start = 1, w_end = 9, w_count = 1 \<rparr>) \<and>
   sort_result (shiftsPT (final_state scenarioA_required scenarioA_limits scenarioA_opts)) [] \<and>
   plan_run scenarioA_required scenarioA_limits scenarioA_opts
     (replicate 5 \<lparr> w_start = 1, w_end = 9, w_count = 1 \<rparr>) [] =
   buildShiftPlanStrategic scenarioA_required scenarioA_limits scenarioA_opts \<and>
   plan_shiftsFT (plan_run scenarioA_required scenarioA_limits scenarioA_opts
     (replicate 5 \<lparr> w_start = 1, w_end = 9, w_count = 1 \<rparr>) []) =
     [\<lparr> w_start = 1, w_end = 9, w_count = 5 \<rparr>]"
proof -
  let ?ys = "replicate 5 \<lparr> w_start = 1, w_end = 9, w_count = 1 \<rparr>"
  have s1: "sort_result (shiftsFT (final_state scenarioA_required scenarioA_limits scenarioA_opts)) ?ys"
    by (simp add: final_state_def scenarioA_final sort_result_def cmp_def numeral_eq_Suc)
  have s2: "sort_result (shiftsPT (final_state scenarioA_required scenarioA_limits scenarioA_opts)) []"
    by (simp add: final_state_def scenarioA_final sort_result_def)
  from planner_deterministic [OF scenarioA_hyps(1) s1 s2 s1 s2]
  have "plan_run scenarioA_required scenarioA_limits scenarioA_opts ?ys [] =
        buildShiftPlanStrategic scenarioA_required scenarioA_limits scenarioA_opts" by simp
  moreover from this have "plan_shiftsFT (plan_run scenarioA_required scenarioA_limits scenarioA_opts ?ys []) =
     [\<lparr> w_start = 1, w_end = 9, w_count = 5 \<rparr>]" by (simp add: scenarioA_plan)
  ultimately show ?thesis using scenarioA_hyps(1) s1 s2 by blast
qed

end
